theory Spec2Isabelle
  imports Main "HOL-Library.AList"
begin

section \<open>The workflow engine of \<^verbatim>\<open>app/engine.py\<close>\<close>

text \<open>
  The engine runs the nodes of a graph one after the other on a shared state dictionary.
  Python dictionaries and lists are mutable objects that are passed by reference, and two
  of the properties below are about which objects a run shares with its caller, so the
  model keeps an explicit store: every dictionary and every list lives at an address, and
  a value that is a dictionary or a list is a reference to its address.
\<close>

subsection \<open>Values and the store\<close>

type_synonym addr = nat

datatype pyval =
    PNone
  | PBool bool
  | PInt int
  | PStr string
  | PDictRef addr
  | PListRef addr

text \<open>
  A dictionary is an association list in insertion order, as Python keeps it:
  \<^verbatim>\<open>d[k] = v\<close> is \<^const>\<open>AList.update\<close> (overwrite in place, else append),
  \<^verbatim>\<open>d.get(k)\<close> is \<^const>\<open>map_of\<close>, \<^verbatim>\<open>d.pop(k)\<close> is \<^const>\<open>AList.delete\<close>.
\<close>

type_synonym pydict = "(string \<times> pyval) list"

record heap =
  dicts :: "addr \<Rightarrow> pydict"
  lists :: "addr \<Rightarrow> pyval list"
  next_addr :: addr

text \<open>\<^verbatim>\<open>d.copy()\<close>: a new dictionary object with the same bindings (a shallow copy).\<close>

definition dict_copy :: "addr \<Rightarrow> heap \<Rightarrow> addr \<times> heap" where
  "dict_copy a h =
     (next_addr h,
      h\<lparr>dicts := (dicts h)(next_addr h := dicts h a), next_addr := Suc (next_addr h)\<rparr>)"

definition dict_get :: "heap \<Rightarrow> addr \<Rightarrow> string \<Rightarrow> pyval option" where
  "dict_get h a k = map_of (dicts h a) k"

definition dict_set :: "addr \<Rightarrow> string \<Rightarrow> pyval \<Rightarrow> heap \<Rightarrow> heap" where
  "dict_set a k v h = h\<lparr>dicts := (dicts h)(a := AList.update k v (dicts h a))\<rparr>"

definition dict_pop :: "addr \<Rightarrow> string \<Rightarrow> heap \<Rightarrow> heap" where
  "dict_pop a k h = h\<lparr>dicts := (dicts h)(a := AList.delete k (dicts h a))\<rparr>"

text \<open>Python's truth value of an object, as \<^verbatim>\<open>if x:\<close> and \<^verbatim>\<open>while x\<close> test it.\<close>

fun truthy :: "heap \<Rightarrow> pyval \<Rightarrow> bool" where
  "truthy h PNone = False"
| "truthy h (PBool b) = b"
| "truthy h (PInt i) = (i \<noteq> 0)"
| "truthy h (PStr s) = (s \<noteq> [])"
| "truthy h (PDictRef a) = (dicts h a \<noteq> [])"
| "truthy h (PListRef a) = (lists h a \<noteq> [])"

text \<open>Dictionaries and lists are unhashable; every other value can be a dictionary key.\<close>

fun hashable :: "pyval \<Rightarrow> bool" where
  "hashable (PDictRef a) = False"
| "hashable (PListRef a) = False"
| "hashable v = True"

subsection \<open>Errors\<close>

text \<open>
  What a transform raises is either an instance of \<^verbatim>\<open>Exception\<close>, which the clauses
  \<^verbatim>\<open>except Exception as e\<close> of \<^verbatim>\<open>execute\<close> and \<^verbatim>\<open>run\<close> catch, or another
  \<^verbatim>\<open>BaseException\<close> (\<^verbatim>\<open>SystemExit\<close>, \<^verbatim>\<open>KeyboardInterrupt\<close>,
  \<^verbatim>\<open>GeneratorExit\<close>), which passes through both. The string is what \<^verbatim>\<open>str(e)\<close>
  yields.
\<close>

datatype thrown =
    AnException string
  | ABaseException string

text \<open>
  The exceptions that leave \<^verbatim>\<open>run\<close> and \<^verbatim>\<open>add_edge\<close>: \<open>Raised msg\<close> is the
  exception of a node's transform that the engine caught and raised again,
  \<open>Propagated msg\<close> the one it did not catch; the other constructors are the exceptions
  the engine's own statements raise.
\<close>

datatype exn =
    ValueError string
  | KeyError pyval
  | TypeError string
  | Raised string
  | Propagated string

text \<open>A name or a type name between apostrophes, as the messages of the exceptions have it.\<close>

definition quoted :: "string \<Rightarrow> string" where
  "quoted s = CHR 0x27 # s @ [CHR 0x27]"

subsection \<open>Nodes\<close>

datatype NodeStatus = PENDING | RUNNING | COMPLETED | FAILED

text \<open>
  A transform receives the reference to the state dictionary and the store; it returns
  the reference to the updated state, or raises, and in both cases leaves a store behind.
\<close>

type_synonym transform = "addr \<Rightarrow> heap \<Rightarrow> (thrown + addr) \<times> heap"

record Node =
  name :: string
  func :: transform
  status :: NodeStatus

definition execute :: "Node \<Rightarrow> addr \<Rightarrow> heap \<Rightarrow> (thrown + addr) \<times> Node \<times> heap" where
  "execute node st h =
     (case func (node\<lparr>status := RUNNING\<rparr>) st h of
        (Inr updated_state, h') \<Rightarrow> (Inr updated_state, node\<lparr>status := COMPLETED\<rparr>, h')
      | (Inl (AnException e), h') \<Rightarrow> (Inl (AnException e), node\<lparr>status := FAILED\<rparr>, h')
      | (Inl (ABaseException e), h') \<Rightarrow> (Inl (ABaseException e), node\<lparr>status := RUNNING\<rparr>, h'))"

subsection \<open>The graph\<close>

record WorkflowGraph =
  graph_id :: string
  nodes :: "(string \<times> Node) list"
  edges :: "(string \<times> string) list"
  entry_node :: "string option"

definition new_graph :: "string \<Rightarrow> WorkflowGraph" where
  "new_graph gid = \<lparr>graph_id = gid, nodes = [], edges = [], entry_node = None\<rparr>"

definition add_node :: "string \<Rightarrow> transform \<Rightarrow> WorkflowGraph \<Rightarrow> WorkflowGraph" where
  "add_node nm f g =
     (let g' = g\<lparr>nodes := AList.update nm \<lparr>name = nm, func = f, status = PENDING\<rparr> (nodes g)\<rparr>
      in if entry_node g' = None then g'\<lparr>entry_node := Some nm\<rparr> else g')"

definition add_edge :: "string \<Rightarrow> string \<Rightarrow> WorkflowGraph \<Rightarrow> exn + WorkflowGraph" where
  "add_edge from_node to_node g =
     (if map_of (nodes g) from_node = None then Inl (ValueError (''Node '' @ quoted from_node @ '' does not exist''))
      else if map_of (nodes g) to_node = None then Inl (ValueError (''Node '' @ quoted to_node @ '' does not exist''))
      else Inr (g\<lparr>edges := AList.update from_node to_node (edges g)\<rparr>))"

text \<open>
  \<^verbatim>\<open>self.edges.get(current_node)\<close>. The key is the current node name, which the loop has
  just used to index \<^verbatim>\<open>self.nodes\<close>; a key that is not a string has no edge.
\<close>

definition get_next_node :: "WorkflowGraph \<Rightarrow> pyval \<Rightarrow> string option" where
  "get_next_node g current_node =
     (case current_node of PStr n \<Rightarrow> map_of (edges g) n | _ \<Rightarrow> None)"

text \<open>
  \<^verbatim>\<open>self.nodes[key]\<close> and \<^verbatim>\<open>key in self.nodes\<close>. The keys of \<^verbatim>\<open>self.nodes\<close> are
  strings, so another hashable key is absent; a list or a dictionary is unhashable and
  both operations raise \<^verbatim>\<open>TypeError\<close>.
\<close>

definition nodes_getitem :: "WorkflowGraph \<Rightarrow> pyval \<Rightarrow> exn + Node" where
  "nodes_getitem g key =
     (case key of
        PStr n \<Rightarrow> (case map_of (nodes g) n of None \<Rightarrow> Inl (KeyError key) | Some node \<Rightarrow> Inr node)
      | PDictRef _ \<Rightarrow> Inl (TypeError (''unhashable type: '' @ quoted ''dict''))
      | PListRef _ \<Rightarrow> Inl (TypeError (''unhashable type: '' @ quoted ''list''))
      | _ \<Rightarrow> Inl (KeyError key))"

definition nodes_contains :: "WorkflowGraph \<Rightarrow> pyval \<Rightarrow> exn + bool" where
  "nodes_contains g key =
     (case key of
        PStr n \<Rightarrow> Inr (map_of (nodes g) n \<noteq> None)
      | PDictRef _ \<Rightarrow> Inl (TypeError (''unhashable type: '' @ quoted ''dict''))
      | PListRef _ \<Rightarrow> Inl (TypeError (''unhashable type: '' @ quoted ''list''))
      | _ \<Rightarrow> Inr False)"

text \<open>The node object stored under a name is mutated in place when its status changes.\<close>

definition store_node :: "pyval \<Rightarrow> Node \<Rightarrow> WorkflowGraph \<Rightarrow> WorkflowGraph" where
  "store_node key node g =
     (case key of PStr n \<Rightarrow> g\<lparr>nodes := AList.update n node (nodes g)\<rparr> | _ \<Rightarrow> g)"

subsection \<open>The conditional routing resolver\<close>

definition evaluate_conditional ::
    "WorkflowGraph \<Rightarrow> string \<Rightarrow> addr \<Rightarrow> heap \<Rightarrow> (exn + pyval) \<times> heap" where
  "evaluate_conditional g conditional_node st h =
     (case dict_get h st ''route_to'' of
        Some next_node \<Rightarrow>
          (let h' = dict_pop st ''route_to'' h
           in case nodes_contains g next_node of
                Inl e \<Rightarrow> (Inl e, h')
              | Inr b \<Rightarrow> (Inr (if b then next_node else PNone), h'))
      | None \<Rightarrow> (Inr PNone, h))"

subsection \<open>Run\<close>

text \<open>
  A trace entry is a dictionary local to \<^verbatim>\<open>run\<close> with the keys \<^verbatim>\<open>node\<close>,
  \<^verbatim>\<open>status\<close>, \<^verbatim>\<open>iteration\<close> and, once set, \<^verbatim>\<open>state_snapshot\<close> and \<^verbatim>\<open>error\<close>.
  No transform holds a reference to it, so it is a record here; the snapshot is the
  reference to the copied dictionary.
\<close>

record log_entry =
  log_node :: pyval
  log_status :: string
  log_iteration :: nat
  state_snapshot :: "addr option"
  log_error :: "string option"

text \<open>The variables of \<^verbatim>\<open>run\<close> at the head of its loop, with the graph and the store.\<close>

record run_state =
  self :: WorkflowGraph
  store :: heap
  state :: addr
  execution_log :: "log_entry list"
  current_node_name :: pyval
  visited_nodes :: "pyval set"
  iteration :: nat

text \<open>
  What a call of \<^verbatim>\<open>run\<close> leaves: \<open>Inr\<close> the reference to the final state when it
  returns, \<open>Inl\<close> the exception when it raises; the trace (the returned one, or the local
  list as it was at the raise); the graph with the node statuses; the store.
\<close>

record run_result =
  outcome :: "exn + addr"
  trace :: "log_entry list"
  graph_after :: WorkflowGraph
  heap_after :: heap

definition returned :: "run_state \<Rightarrow> run_result" where
  "returned rs =
     \<lparr>outcome = Inr (state rs), trace = execution_log rs,
      graph_after = self rs, heap_after = store rs\<rparr>"

definition raise :: "exn \<Rightarrow> log_entry list \<Rightarrow> WorkflowGraph \<Rightarrow> heap \<Rightarrow> run_result" where
  "raise e lg g h = \<lparr>outcome = Inl e, trace = lg, graph_after = g, heap_after = h\<rparr>"

definition max_iterations :: nat where
  "max_iterations = 100"

definition startswith :: "string \<Rightarrow> string \<Rightarrow> bool" where
  "startswith s p = (take (length p) s = p)"

text \<open>
  The next node after the current one: the static successor, or what the resolver
  returns when the successor's name starts with \<^verbatim>\<open>if_\<close>
  (\<^verbatim>\<open>if next_node and next_node.startswith("if_")\<close>).
\<close>

definition resolve_next :: "run_state \<Rightarrow> (exn + pyval) \<times> heap" where
  "resolve_next rs =
     (case get_next_node (self rs) (current_node_name rs) of
        None \<Rightarrow> (Inr PNone, store rs)
      | Some next_node \<Rightarrow>
          if next_node \<noteq> [] \<and> startswith next_node ''if_''
          then evaluate_conditional (self rs) next_node (state rs) (store rs)
          else (Inr (PStr next_node), store rs))"

text \<open>The condition \<^verbatim>\<open>state.get("loop_continue", False)\<close> of the loop override.\<close>

definition loop_requested :: "heap \<Rightarrow> addr \<Rightarrow> bool" where
  "loop_requested h st =
     truthy h (case dict_get h st ''loop_continue'' of None \<Rightarrow> PBool False | Some v \<Rightarrow> v)"

text \<open>
  The statements after the \<^verbatim>\<open>try\<close> block of one iteration: the next node, then the
  loop override. The boolean of the result says that the iteration ended in \<^verbatim>\<open>break\<close>.
\<close>

definition route :: "run_state \<Rightarrow> run_result + (bool \<times> run_state)" where
  "route rs =
     (case resolve_next rs of
        (Inl e, h) \<Rightarrow> Inl (raise e (execution_log rs) (self rs) h)
      | (Inr nxt, h) \<Rightarrow>
          if loop_requested h (state rs)
          then
            (let loop_node =
                   (case dict_get h (state rs) ''loop_node'' of
                      Some v \<Rightarrow> v
                    | None \<Rightarrow> (case entry_node (self rs) of None \<Rightarrow> PNone | Some e \<Rightarrow> PStr e))
             in Inr (False,
                     rs\<lparr>current_node_name := loop_node,
                        store := dict_set (state rs) ''loop_continue'' (PBool False) h\<rparr>))
          else Inr (nxt = PNone, rs\<lparr>current_node_name := nxt, store := h\<rparr>))"

text \<open>One iteration of the \<^verbatim>\<open>while\<close> loop.\<close>

definition run_body :: "run_state \<Rightarrow> run_result + (bool \<times> run_state)" where
  "run_body rs =
     (let it = Suc (iteration rs);
          cur = current_node_name rs
      in case nodes_getitem (self rs) cur of
           Inl e \<Rightarrow> Inl (raise e (execution_log rs) (self rs) (store rs))
         | Inr node \<Rightarrow>
             (let entry = \<lparr>log_node = cur, log_status = ''running'', log_iteration = it,
                           state_snapshot = None, log_error = None\<rparr>
              in case execute node (state rs) (store rs) of
                   (Inl (AnException e), node', h1) \<Rightarrow>
                     (let failed = entry\<lparr>log_status := ''failed'', log_error := Some e\<rparr>
                      in Inl (raise (Raised e) (execution_log rs @ [failed, failed])
                                (store_node cur node' (self rs)) h1))
                 | (Inl (ABaseException e), node', h1) \<Rightarrow>
                     Inl (raise (Propagated e) (execution_log rs @ [entry])
                            (store_node cur node' (self rs)) h1)
                 | (Inr st1, node', h1) \<Rightarrow>
                     (let (snap, h2) = dict_copy st1 h1;
                          done = entry\<lparr>log_status := ''completed'', state_snapshot := Some snap\<rparr>
                      in route (rs\<lparr>self := store_node cur node' (self rs),
                                    store := h2,
                                    state := st1,
                                    execution_log := execution_log rs @ [done],
                                    visited_nodes := insert cur (visited_nodes rs),
                                    iteration := it\<rparr>))))"

function run_loop :: "run_state \<Rightarrow> run_result" where
  "run_loop rs =
     (if truthy (store rs) (current_node_name rs) \<and> iteration rs < max_iterations
      then (case run_body rs of
              Inl r \<Rightarrow> r
            | Inr (brk, rs') \<Rightarrow> if brk then returned rs' else run_loop rs')
      else returned rs)"
  by pat_completeness auto
termination
  by (relation "measure (\<lambda>rs. max_iterations - iteration rs)")
     (auto simp: run_body_def route_def Let_def
           split: sum.splits prod.splits thrown.splits if_splits)

definition run :: "WorkflowGraph \<Rightarrow> addr \<Rightarrow> heap \<Rightarrow> run_result" where
  "run g initial_state h =
     (case entry_node g of
        None \<Rightarrow> raise (ValueError ''No entry node defined'') [] g h
      | Some e \<Rightarrow>
          (let (st, h') = dict_copy initial_state h
           in run_loop \<lparr>self = g, store = h', state = st, execution_log = [],
                        current_node_name = PStr e, visited_nodes = {}, iteration = 0\<rparr>))"

text \<open>A value names a node of the graph: it is a string and a key of \<^verbatim>\<open>self.nodes\<close>.\<close>

definition is_node_name :: "WorkflowGraph \<Rightarrow> pyval \<Rightarrow> bool" where
  "is_node_name g v = (case v of PStr n \<Rightarrow> map_of (nodes g) n \<noteq> None | _ \<Rightarrow> False)"

text \<open>
  The variables of \<^verbatim>\<open>run\<close> after the \<^verbatim>\<open>try\<close> block of an iteration whose node
  returned the state \<open>st1\<close> and left the store \<open>h1\<close>, and the loop target of the override;
  both only name terms of \<^const>\<open>run_body\<close> and \<^const>\<open>route\<close>.
\<close>

definition after_success :: "run_state \<Rightarrow> Node \<Rightarrow> addr \<Rightarrow> heap \<Rightarrow> run_state" where
  "after_success rs node st1 h1 =
     rs\<lparr>self := store_node (current_node_name rs) (node\<lparr>status := COMPLETED\<rparr>) (self rs),
        store := snd (dict_copy st1 h1),
        state := st1,
        execution_log := execution_log rs @
          [\<lparr>log_node = current_node_name rs, log_status = ''completed'',
            log_iteration = Suc (iteration rs), state_snapshot = Some (next_addr h1),
            log_error = None\<rparr>],
        visited_nodes := insert (current_node_name rs) (visited_nodes rs),
        iteration := Suc (iteration rs)\<rparr>"

definition loop_target :: "WorkflowGraph \<Rightarrow> heap \<Rightarrow> addr \<Rightarrow> pyval" where
  "loop_target g h st =
     (case dict_get h st ''loop_node'' of
        Some v \<Rightarrow> v
      | None \<Rightarrow> (case entry_node g of None \<Rightarrow> PNone | Some e \<Rightarrow> PStr e))"

text \<open>
  The iteration numbers of a trace count the attempts of the run: \<open>1, \<dots>, k\<close> with
  \<open>k\<close> at most the ceiling, the last one repeated when the run ended by the failure of a
  transform.
\<close>

definition counted :: "run_result \<Rightarrow> bool" where
  "counted r \<longleftrightarrow>
     (\<exists>k\<le>max_iterations.
        (map log_iteration (trace r) = [1..<Suc k] \<and> (\<forall>msg. outcome r \<noteq> Inl (Raised msg))) \<or>
        (map log_iteration (trace r) = [1..<Suc k] @ [k] \<and> (\<exists>msg. outcome r = Inl (Raised msg))))"

text \<open>
  The state carries no loop flag: \<^verbatim>\<open>loop_continue\<close> is absent or holds \<^verbatim>\<open>None\<close>,
  \<^verbatim>\<open>False\<close>, \<^verbatim>\<open>0\<close> or the empty string.
\<close>

fun plain_falsy :: "pyval \<Rightarrow> bool" where
  "plain_falsy PNone = True"
| "plain_falsy (PBool b) = (\<not> b)"
| "plain_falsy (PInt i) = (i = 0)"
| "plain_falsy (PStr s) = (s = [])"
| "plain_falsy (PDictRef a) = False"
| "plain_falsy (PListRef a) = False"

definition no_loop_flag :: "heap \<Rightarrow> addr \<Rightarrow> bool" where
  "no_loop_flag h st =
     (case dict_get h st ''loop_continue'' of None \<Rightarrow> True | Some v \<Rightarrow> plain_falsy v)"

text \<open>
  A transform that never raises and leaves the two keys the engine routes by as it found
  them, in the state it returns.
\<close>

definition keeps_control_keys :: "transform \<Rightarrow> bool" where
  "keeps_control_keys f \<longleftrightarrow>
     (\<forall>st h. \<exists>st' h'. f st h = (Inr st', h') \<and>
        dict_get h' st' ''route_to'' = dict_get h st ''route_to'' \<and>
        dict_get h' st' ''loop_continue'' = dict_get h st ''loop_continue'')"

text \<open>
  The graph with every node status reset: what remains is what construction put into the
  graph.
\<close>

definition forget_status :: "WorkflowGraph \<Rightarrow> WorkflowGraph" where
  "forget_status g = g\<lparr>nodes := map (\<lambda>(k, node). (k, node\<lparr>status := PENDING\<rparr>)) (nodes g)\<rparr>"

text \<open>
  A transform leaves the dictionary at \<open>p\<close> alone: handed another object as state, it does
  not write to \<open>p\<close>, does not return \<open>p\<close> as the new state, and \<open>p\<close> stays allocated.
  A transform that reaches objects only through the state it is handed is of this kind for
  every dictionary that cannot be reached from that state.
\<close>

definition leaves_alone :: "transform \<Rightarrow> addr \<Rightarrow> bool" where
  "leaves_alone f p \<longleftrightarrow>
     (\<forall>st h. st \<noteq> p \<and> p < next_addr h \<longrightarrow>
        (case f st h of
           (r, h') \<Rightarrow> p < next_addr h' \<and> dicts h' p = dicts h p \<and> (\<forall>st'. r = Inr st' \<longrightarrow> st' \<noteq> p)))"

definition all_transforms :: "(transform \<Rightarrow> bool) \<Rightarrow> WorkflowGraph \<Rightarrow> bool" where
  "all_transforms P g \<longleftrightarrow> (\<forall>n node. map_of (nodes g) n = Some node \<longrightarrow> P (func node))"

text \<open>
  A state whose values are all immutable (\<^verbatim>\<open>None\<close>, booleans, integers, strings), and a
  transform whose outcome depends only on the bindings of the state it is handed: from two
  states with the same immutable bindings, in whatever stores, it raises the same
  exception, or returns states that again have the same immutable bindings.
\<close>

definition plain_dict :: "pydict \<Rightarrow> bool" where
  "plain_dict d = list_all (\<lambda>(k, v). hashable v) d"

definition content_only :: "transform \<Rightarrow> bool" where
  "content_only f \<longleftrightarrow>
     (\<forall>st h st' h'. dicts h' st' = dicts h st \<and> plain_dict (dicts h st) \<longrightarrow>
        (case (f st h, f st' h') of
           ((Inr s1, h1), (Inr s1', h1')) \<Rightarrow> dicts h1' s1' = dicts h1 s1 \<and> plain_dict (dicts h1 s1)
         | ((Inl e, h1), (Inl e', h1')) \<Rightarrow> e' = e
         | _ \<Rightarrow> False))"

text \<open>
  The shape of a trace entry leaves out which object the snapshot is; the content of a
  result is the exception, or the bindings of the returned state.
\<close>

definition entry_shape :: "log_entry \<Rightarrow> pyval \<times> string \<times> nat \<times> bool \<times> string option" where
  "entry_shape e =
     (log_node e, log_status e, log_iteration e, state_snapshot e \<noteq> None, log_error e)"

definition final_content :: "run_result \<Rightarrow> exn + pydict" where
  "final_content r = (case outcome r of Inl e \<Rightarrow> Inl e | Inr st \<Rightarrow> Inr (dicts (heap_after r) st))"

definition same_shape :: "run_result \<Rightarrow> run_result \<Rightarrow> bool" where
  "same_shape r r' \<longleftrightarrow>
     final_content r' = final_content r \<and>
     map entry_shape (trace r') = map entry_shape (trace r)"

text \<open>Two loop states that differ in node statuses and in where the objects are.\<close>

definition same_view :: "run_state \<Rightarrow> run_state \<Rightarrow> bool" where
  "same_view rs rs' \<longleftrightarrow>
     forget_status (self rs') = forget_status (self rs) \<and>
     dicts (store rs') (state rs') = dicts (store rs) (state rs) \<and>
     plain_dict (dicts (store rs) (state rs)) \<and>
     current_node_name rs' = current_node_name rs \<and> hashable (current_node_name rs) \<and>
     iteration rs' = iteration rs \<and>
     map entry_shape (execution_log rs') = map entry_shape (execution_log rs)"

text \<open>
  The graph is a single linear chain over the names \<open>ns\<close>: these are the names of its
  nodes, all different, the first one is the entry node, and the edge map sends each name
  to the next one and the last one nowhere.
\<close>

definition linear_chain :: "WorkflowGraph \<Rightarrow> string list \<Rightarrow> bool" where
  "linear_chain g ns \<longleftrightarrow>
     ns \<noteq> [] \<and> distinct ns \<and>
     distinct (map fst (nodes g)) \<and> set (map fst (nodes g)) = set ns \<and>
     entry_node g = Some (hd ns) \<and>
     map_of (edges g) = map_of (zip ns (tl ns))"

text \<open>A transform that never raises and does not set the loop flag.\<close>

definition plain_step :: "transform \<Rightarrow> bool" where
  "plain_step f \<longleftrightarrow>
     (\<forall>st h. \<exists>st' h'. f st h = (Inr st', h') \<and> (no_loop_flag h st \<longrightarrow> no_loop_flag h' st'))"

subsection \<open>Example transforms, stores and graphs\<close>

definition keep :: transform where "keep st h = (Inr st, h)"
definition boom :: transform where "boom st h = (Inl (AnException ''boom''), h)"

definition interrupt :: transform where
  "interrupt st h = (Inl (ABaseException ''KeyboardInterrupt''), h)"

definition empty_heap :: heap where
  "empty_heap = \<lparr>dicts = (\<lambda>_. []), lists = (\<lambda>_. []), next_addr = 0\<rparr>"

text \<open>allocate a dictionary\<close>
definition new_dict :: "pydict \<Rightarrow> heap \<Rightarrow> addr \<times> heap" where
  "new_dict d h = (next_addr h, h\<lparr>dicts := (dicts h)(next_addr h := d), next_addr := Suc (next_addr h)\<rparr>)"

definition scenario_B :: WorkflowGraph where
  "scenario_B = \<lparr>graph_id = ''B'',
      nodes = [(''a'', \<lparr>name = ''a'', func = boom, status = PENDING\<rparr>),
               (''b'', \<lparr>name = ''b'', func = keep, status = PENDING\<rparr>)],
      edges = [(''a'', ''b'')], entry_node = Some ''a''\<rparr>"

definition start_B :: run_state where
  "start_B = \<lparr>self = scenario_B, store = snd (new_dict [] empty_heap), state = 0, execution_log = [],
     current_node_name = PStr ''a'', visited_nodes = {}, iteration = 0\<rparr>"

definition request_loop :: "string \<Rightarrow> transform" where
  "request_loop target st h =
     (Inr st, dict_set st ''loop_node'' (PStr target) (dict_set st ''loop_continue'' (PBool True) h))"

definition loop_graph :: WorkflowGraph where
  "loop_graph = \<lparr>graph_id = ''loop'',
      nodes = [(''a'', \<lparr>name = ''a'', func = request_loop ''b'', status = PENDING\<rparr>),
               (''b'', \<lparr>name = ''b'', func = keep, status = PENDING\<rparr>),
               (''c'', \<lparr>name = ''c'', func = keep, status = PENDING\<rparr>)],
      edges = [(''a'', ''c'')], entry_node = Some ''a''\<rparr>"

definition start_loop :: run_state where
  "start_loop = \<lparr>self = loop_graph, store = snd (new_dict [] empty_heap), state = 0,
     execution_log = [], current_node_name = PStr ''a'', visited_nodes = {}, iteration = 0\<rparr>"

definition unhashable_route_heap :: heap where
  "unhashable_route_heap =
     \<lparr>dicts = (\<lambda>_. [])(0 := [(''route_to'', PListRef 1)]), lists = (\<lambda>_. []), next_addr = 2\<rparr>"

definition routed_heap :: heap where
  "routed_heap = snd (new_dict [(''route_to'', PStr ''c''), (''x'', PInt 1)] empty_heap)"

definition spin_graph :: WorkflowGraph where
  "spin_graph = \<lparr>graph_id = ''spin'',
      nodes = [(''a'', \<lparr>name = ''a'', func = keep, status = PENDING\<rparr>)],
      edges = [(''a'', ''a'')], entry_node = Some ''a''\<rparr>"

definition ghost_entry_graph :: WorkflowGraph where
  "ghost_entry_graph = \<lparr>graph_id = ''ghost'',
      nodes = [(''a'', \<lparr>name = ''a'', func = keep, status = PENDING\<rparr>)],
      edges = [], entry_node = Some ''ghost''\<rparr>"

definition ghost_loop_graph :: WorkflowGraph where
  "ghost_loop_graph = \<lparr>graph_id = ''ghost'',
      nodes = [(''a'', \<lparr>name = ''a'', func = request_loop ''ghost'', status = PENDING\<rparr>)],
      edges = [], entry_node = Some ''a''\<rparr>"

definition start_ghost_loop :: run_state where
  "start_ghost_loop = \<lparr>self = ghost_loop_graph, store = snd (new_dict [] empty_heap), state = 0,
     execution_log = [], current_node_name = PStr ''a'', visited_nodes = {}, iteration = 0\<rparr>"

definition unnamed_entry_graph :: WorkflowGraph where
  "unnamed_entry_graph = \<lparr>graph_id = ''unnamed'',
      nodes = [(''a'', \<lparr>name = ''a'', func = keep, status = PENDING\<rparr>)],
      edges = [], entry_node = Some ''''\<rparr>"

definition scenario_D :: WorkflowGraph where
  "scenario_D = \<lparr>graph_id = ''D'',
      nodes = [(''a'', \<lparr>name = ''a'', func = keep, status = PENDING\<rparr>),
               (''if_route'', \<lparr>name = ''if_route'', func = boom, status = PENDING\<rparr>),
               (''c'', \<lparr>name = ''c'', func = keep, status = PENDING\<rparr>)],
      edges = [(''a'', ''if_route'')], entry_node = Some ''a''\<rparr>"

text \<open>A transform that appends to the list stored under \<^verbatim>\<open>xs\<close>, in place.\<close>

definition append_item :: transform where
  "append_item st h =
     (case dict_get h st ''xs'' of
        Some (PListRef l) \<Rightarrow> (Inr st, h\<lparr>lists := (lists h)(l := lists h l @ [PInt 2])\<rparr>)
      | _ \<Rightarrow> (Inr st, h))"

text \<open>The caller's state \<^verbatim>\<open>{"xs": [1]}\<close>: the dictionary at 0, its list at 1.\<close>

definition nested_heap :: heap where
  "nested_heap = \<lparr>dicts = (\<lambda>_. [])(0 := [(''xs'', PListRef 1)]),
                   lists = (\<lambda>_. [])(1 := [PInt 1]), next_addr = 2\<rparr>"

definition nested_graph :: WorkflowGraph where
  "nested_graph = \<lparr>graph_id = ''nested'',
      nodes = [(''a'', \<lparr>name = ''a'', func = keep, status = PENDING\<rparr>),
               (''b'', \<lparr>name = ''b'', func = append_item, status = PENDING\<rparr>)],
      edges = [(''a'', ''b'')], entry_node = Some ''a''\<rparr>"

definition start_nested :: run_state where
  "start_nested = \<lparr>self = nested_graph, store = snd (dict_copy 0 nested_heap), state = 2,
     execution_log = [], current_node_name = PStr ''a'', visited_nodes = {}, iteration = 0\<rparr>"

definition interrupted_graph :: WorkflowGraph where
  "interrupted_graph = \<lparr>graph_id = ''interrupted'',
      nodes = [(''a'', \<lparr>name = ''a'', func = interrupt, status = PENDING\<rparr>),
               (''b'', \<lparr>name = ''b'', func = keep, status = PENDING\<rparr>)],
      edges = [(''a'', ''b'')], entry_node = Some ''a''\<rparr>"

definition marker_loop_graph :: WorkflowGraph where
  "marker_loop_graph = \<lparr>graph_id = ''marker'',
      nodes = [(''a'', \<lparr>name = ''a'', func = request_loop ''b'', status = PENDING\<rparr>),
               (''b'', \<lparr>name = ''b'', func = keep, status = PENDING\<rparr>),
               (''if_x'', \<lparr>name = ''if_x'', func = keep, status = PENDING\<rparr>)],
      edges = [(''a'', ''if_x'')], entry_node = Some ''a''\<rparr>"

text \<open>A chain of \<open>n\<close> nodes named \<^verbatim>\<open>n\<close>, \<^verbatim>\<open>nn\<close>, \<^verbatim>\<open>nnn\<close> and so on.\<close>

definition chain_names :: "nat \<Rightarrow> string list" where
  "chain_names n = map (\<lambda>i. replicate (Suc i) CHR ''n'') [0..<n]"

definition chain_graph :: "nat \<Rightarrow> WorkflowGraph" where
  "chain_graph n =
     \<lparr>graph_id = ''chain'',
      nodes = map (\<lambda>nm. (nm, \<lparr>name = nm, func = keep, status = PENDING\<rparr>)) (chain_names n),
      edges = zip (chain_names n) (tl (chain_names n)),
      entry_node = Some (hd (chain_names n))\<rparr>"

definition scenario_A :: WorkflowGraph where
  "scenario_A = \<lparr>graph_id = ''A'',
      nodes = [(''a'', \<lparr>name = ''a'', func = keep, status = PENDING\<rparr>),
               (''b'', \<lparr>name = ''b'', func = keep, status = PENDING\<rparr>),
               (''c'', \<lparr>name = ''c'', func = keep, status = PENDING\<rparr>)],
      edges = [(''a'', ''b''), (''b'', ''c'')], entry_node = Some ''a''\<rparr>"

definition unnamed_chain :: WorkflowGraph where
  "unnamed_chain = \<lparr>graph_id = ''unnamed'',
      nodes = [(''a'', \<lparr>name = ''a'', func = keep, status = PENDING\<rparr>),
               ('''', \<lparr>name = '''', func = keep, status = PENDING\<rparr>)],
      edges = [(''a'', '''')], entry_node = Some ''a''\<rparr>"

definition short_chain :: WorkflowGraph where
  "short_chain = \<lparr>graph_id = ''short'',
      nodes = [(''a'', \<lparr>name = ''a'', func = keep, status = PENDING\<rparr>),
               (''b'', \<lparr>name = ''b'', func = keep, status = PENDING\<rparr>)],
      edges = [(''a'', ''b'')], entry_node = Some ''a''\<rparr>"

definition flagged_heap :: heap where
  "flagged_heap = snd (new_dict [(''loop_continue'', PBool True)] empty_heap)"

section \<open>Basic facts about one iteration\<close>

declare run_loop.simps [simp del]

lemma nodes_getitem_InrD:
  "nodes_getitem g key = Inr node \<Longrightarrow> \<exists>n. key = PStr n \<and> map_of (nodes g) n = Some node"
  by (auto simp: nodes_getitem_def split: pyval.splits option.splits)

lemma run_body_propagated:
  assumes "nodes_getitem (self rs) (current_node_name rs) = Inr node"
    and "func node (state rs) (store rs) = (Inl (ABaseException msg), h1)"
  shows "run_body rs =
    Inl (raise (Propagated msg)
          (execution_log rs @ [\<lparr>log_node = current_node_name rs, log_status = ''running'',
              log_iteration = Suc (iteration rs), state_snapshot = None, log_error = None\<rparr>])
          (store_node (current_node_name rs) (node\<lparr>status := RUNNING\<rparr>) (self rs)) h1)"
  using assms by (simp add: run_body_def execute_def Let_def)

lemma run_body_failed:
  assumes "nodes_getitem (self rs) (current_node_name rs) = Inr node"
    and "func node (state rs) (store rs) = (Inl (AnException msg), h1)"
  shows "run_body rs =
    Inl (raise (Raised msg)
          (execution_log rs @ replicate 2 \<lparr>log_node = current_node_name rs, log_status = ''failed'',
              log_iteration = Suc (iteration rs), state_snapshot = None, log_error = Some msg\<rparr>)
          (store_node (current_node_name rs) (node\<lparr>status := FAILED\<rparr>) (self rs)) h1)"
  using assms by (simp add: run_body_def execute_def Let_def numeral_2_eq_2)

lemma run_body_completed:
  assumes "nodes_getitem (self rs) (current_node_name rs) = Inr node"
    and "func node (state rs) (store rs) = (Inr st1, h1)"
  shows "run_body rs =
    route (rs\<lparr>self := store_node (current_node_name rs) (node\<lparr>status := COMPLETED\<rparr>) (self rs),
               store := snd (dict_copy st1 h1),
               state := st1,
               execution_log := execution_log rs @
                 [\<lparr>log_node = current_node_name rs, log_status = ''completed'',
                   log_iteration = Suc (iteration rs), state_snapshot = Some (next_addr h1),
                   log_error = None\<rparr>],
               visited_nodes := insert (current_node_name rs) (visited_nodes rs),
               iteration := Suc (iteration rs)\<rparr>)"
  using assms by (simp add: run_body_def execute_def Let_def dict_copy_def)

lemmas engine_defs =
  run_def run_body_def route_def loop_requested_def resolve_next_def evaluate_conditional_def execute_def
  nodes_getitem_def nodes_contains_def store_node_def get_next_node_def startswith_def
  dict_copy_def dict_get_def dict_set_def dict_pop_def returned_def raise_def
  max_iterations_def Let_def

lemmas example_defs =
  keep_def boom_def empty_heap_def new_dict_def

lemma dict_get_copy [simp]: "dict_get (snd (dict_copy a h)) a k = dict_get h a k"
  by (simp add: dict_get_def dict_copy_def)

lemma truthy_copy:
  assumes "dict_get h a k = Some w" and "truthy h v"
  shows "truthy (snd (dict_copy a h)) v"
  using assms by (cases v) (auto simp: dict_copy_def dict_get_def)

lemma evaluate_conditional_other_key:
  "k \<noteq> ''route_to'' \<Longrightarrow>
     dict_get (snd (evaluate_conditional g m st h)) st k = dict_get h st k"
  by (auto simp: evaluate_conditional_def dict_get_def dict_pop_def Let_def AList.delete_conv'
           split: option.splits sum.splits)

lemma evaluate_conditional_truthy:
  assumes "dict_get h st k = Some w" and "k \<noteq> ''route_to''"
  shows "truthy (snd (evaluate_conditional g m st h)) v = truthy h v"
proof -
  have "map_of (AList.delete ''route_to'' (dicts h st)) k = Some w"
    using assms by (simp add: AList.delete_conv' dict_get_def)
  then have "AList.delete ''route_to'' (dicts h st) \<noteq> []" by auto
  moreover have "dicts h st \<noteq> []" using assms by (auto simp: dict_get_def)
  ultimately show ?thesis
    by (cases v)
       (auto simp: evaluate_conditional_def dict_pop_def Let_def split: option.splits sum.splits)
qed

lemma resolve_next_other_key:
  "k \<noteq> ''route_to'' \<Longrightarrow> dict_get (snd (resolve_next rs)) (state rs) k = dict_get (store rs) (state rs) k"
  by (simp add: resolve_next_def evaluate_conditional_other_key split: option.splits)

lemma resolve_next_truthy:
  "dict_get (store rs) (state rs) k = Some w \<Longrightarrow> k \<noteq> ''route_to'' \<Longrightarrow>
     truthy (snd (resolve_next rs)) v = truthy (store rs) v"
  by (simp add: resolve_next_def evaluate_conditional_truthy split: option.splits)

lemma dict_get_set_same [simp]: "dict_get (dict_set a k v h) a k = Some v"
  by (simp add: dict_get_def dict_set_def AList.update_conv')

lemma route_loop_override:
  assumes "resolve_next rs = (Inr nxt, h)"
    and "dict_get (store rs) (state rs) ''loop_continue'' = Some v" and "truthy (store rs) v"
  shows "route rs =
    Inr (False,
         rs\<lparr>current_node_name :=
              (case dict_get (store rs) (state rs) ''loop_node'' of
                 Some w \<Rightarrow> w
               | None \<Rightarrow> (case entry_node (self rs) of None \<Rightarrow> PNone | Some e \<Rightarrow> PStr e)),
            store := dict_set (state rs) ''loop_continue'' (PBool False) h\<rparr>)"
proof -
  have h: "h = snd (resolve_next rs)" using assms(1) by simp
  have "dict_get h (state rs) ''loop_continue'' = Some v"
    unfolding h using assms(2) by (simp add: resolve_next_other_key)
  moreover have "truthy h v"
    unfolding h using assms(2,3) by (simp add: resolve_next_truthy)
  moreover have "dict_get h (state rs) ''loop_node'' = dict_get (store rs) (state rs) ''loop_node''"
    unfolding h by (simp add: resolve_next_other_key)
  ultimately show ?thesis
    using assms(1) by (simp add: route_def loop_requested_def Let_def)
qed

lemma route_InrD:
  "route rs = Inr (brk, rs') \<Longrightarrow> \<exists>nxt h. resolve_next rs = (Inr nxt, h)"
  by (cases "resolve_next rs") (auto simp: route_def split: sum.splits)

lemma after_success_simps [simp]:
  "self (after_success rs node st1 h1)
     = store_node (current_node_name rs) (node\<lparr>status := COMPLETED\<rparr>) (self rs)"
  "store (after_success rs node st1 h1) = snd (dict_copy st1 h1)"
  "state (after_success rs node st1 h1) = st1"
  "execution_log (after_success rs node st1 h1) = execution_log rs @
          [\<lparr>log_node = current_node_name rs, log_status = ''completed'',
            log_iteration = Suc (iteration rs), state_snapshot = Some (next_addr h1),
            log_error = None\<rparr>]"
  "current_node_name (after_success rs node st1 h1) = current_node_name rs"
  "iteration (after_success rs node st1 h1) = Suc (iteration rs)"
  by (simp_all add: after_success_def)

lemma run_body_after_success:
  assumes "nodes_getitem (self rs) (current_node_name rs) = Inr node"
    and "func node (state rs) (store rs) = (Inr st1, h1)"
  shows "run_body rs = route (after_success rs node st1 h1)"
  unfolding after_success_def by (rule run_body_completed [OF assms])

lemma run_body_lookup_error:
  "nodes_getitem (self rs) (current_node_name rs) = Inl e \<Longrightarrow>
     run_body rs = Inl (raise e (execution_log rs) (self rs) (store rs))"
  by (simp add: run_body_def)

lemma store_node_simps [simp]:
  "edges (store_node key node g) = edges g"
  "entry_node (store_node key node g) = entry_node g"
  "graph_id (store_node key node g) = graph_id g"
  by (simp_all add: store_node_def split: pyval.splits)

lemma map_of_store_node [simp]:
  "map_of (nodes (store_node (PStr n) node g)) m = (if m = n then Some node else map_of (nodes g) m)"
  by (simp add: store_node_def AList.update_conv')

lemma route_raise:
  "resolve_next rs = (Inl e, h) \<Longrightarrow> route rs = Inl (raise e (execution_log rs) (self rs) h)"
  by (simp add: route_def)

lemma route_loop:
  "resolve_next rs = (Inr nxt, h) \<Longrightarrow> loop_requested h (state rs) \<Longrightarrow>
     route rs = Inr (False, rs\<lparr>current_node_name := loop_target (self rs) h (state rs),
                               store := dict_set (state rs) ''loop_continue'' (PBool False) h\<rparr>)"
  by (simp add: route_def loop_target_def)

lemma route_next:
  "resolve_next rs = (Inr nxt, h) \<Longrightarrow> \<not> loop_requested h (state rs) \<Longrightarrow>
     route rs = Inr (nxt = PNone, rs\<lparr>current_node_name := nxt, store := h\<rparr>)"
  by (simp add: route_def)

lemma route_cases [case_names resolver_raises override advance]:
  obtains
    (resolver_raises) e h where "resolve_next rs = (Inl e, h)"
      and "route rs = Inl (raise e (execution_log rs) (self rs) h)"
  | (override) nxt h where "resolve_next rs = (Inr nxt, h)" and "loop_requested h (state rs)"
      and "route rs = Inr (False, rs\<lparr>current_node_name := loop_target (self rs) h (state rs),
                               store := dict_set (state rs) ''loop_continue'' (PBool False) h\<rparr>)"
  | (advance) nxt h where "resolve_next rs = (Inr nxt, h)" and "\<not> loop_requested h (state rs)"
      and "route rs = Inr (nxt = PNone, rs\<lparr>current_node_name := nxt, store := h\<rparr>)"
proof (cases "resolve_next rs")
  case (Pair r h)
  show thesis
  proof (cases r)
    case (Inl e)
    with Pair resolver_raises route_raise show thesis by blast
  next
    case (Inr nxt)
    with Pair override advance route_loop route_next show thesis by blast
  qed
qed

lemma run_body_cases [case_names lookup failed completed propagated]:
  obtains
    (lookup) e where "nodes_getitem (self rs) (current_node_name rs) = Inl e"
      and "run_body rs = Inl (raise e (execution_log rs) (self rs) (store rs))"
  | (failed) node msg h1 where "nodes_getitem (self rs) (current_node_name rs) = Inr node"
      and "func node (state rs) (store rs) = (Inl (AnException msg), h1)"
      and "run_body rs = Inl (raise (Raised msg)
          (execution_log rs @ replicate 2 \<lparr>log_node = current_node_name rs, log_status = ''failed'',
              log_iteration = Suc (iteration rs), state_snapshot = None, log_error = Some msg\<rparr>)
          (store_node (current_node_name rs) (node\<lparr>status := FAILED\<rparr>) (self rs)) h1)"
  | (completed) node st1 h1 where "nodes_getitem (self rs) (current_node_name rs) = Inr node"
      and "func node (state rs) (store rs) = (Inr st1, h1)"
      and "run_body rs = route (after_success rs node st1 h1)"
  | (propagated) node msg h1 where "nodes_getitem (self rs) (current_node_name rs) = Inr node"
      and "func node (state rs) (store rs) = (Inl (ABaseException msg), h1)"
      and "run_body rs = Inl (raise (Propagated msg)
          (execution_log rs @ [\<lparr>log_node = current_node_name rs, log_status = ''running'',
              log_iteration = Suc (iteration rs), state_snapshot = None, log_error = None\<rparr>])
          (store_node (current_node_name rs) (node\<lparr>status := RUNNING\<rparr>) (self rs)) h1)"
proof (cases "nodes_getitem (self rs) (current_node_name rs)")
  case (Inl e)
  with lookup run_body_lookup_error show thesis by blast
next
  case (Inr node)
  show thesis
  proof (cases "func node (state rs) (store rs)")
    case (Pair r h1)
    show thesis
    proof (cases r)
      case (Inl t)
      show thesis
      proof (cases t)
        case (AnException msg)
        with Inl Pair Inr failed run_body_failed show thesis by blast
      next
        case (ABaseException msg)
        with Inl Pair Inr propagated run_body_propagated show thesis by blast
      qed
    next
      case r: (Inr st1)
      with Pair Inr completed run_body_after_success show thesis by blast
    qed
  qed
qed

lemma run_loop_exit:
  "\<not> (truthy (store rs) (current_node_name rs) \<and> iteration rs < max_iterations) \<Longrightarrow>
     run_loop rs = returned rs"
  by (subst run_loop.simps) auto

lemma run_loop_raise:
  "truthy (store rs) (current_node_name rs) \<Longrightarrow> iteration rs < max_iterations \<Longrightarrow>
     run_body rs = Inl r \<Longrightarrow> run_loop rs = r"
  by (subst run_loop.simps) simp

lemma run_loop_step:
  "truthy (store rs) (current_node_name rs) \<Longrightarrow> iteration rs < max_iterations \<Longrightarrow>
     run_body rs = Inr (brk, rs') \<Longrightarrow>
     run_loop rs = (if brk then returned rs' else run_loop rs')"
  by (subst run_loop.simps) simp

lemma result_simps [simp]:
  "outcome (returned rs) = Inr (state rs)"
  "trace (returned rs) = execution_log rs"
  "graph_after (returned rs) = self rs"
  "heap_after (returned rs) = store rs"
  "outcome (raise e lg g h) = Inl e"
  "trace (raise e lg g h) = lg"
  "graph_after (raise e lg g h) = g"
  "heap_after (raise e lg g h) = h"
  by (simp_all add: returned_def raise_def)

lemma route_log_iteration:
  "route rs = Inr (brk, rs') \<Longrightarrow>
     execution_log rs' = execution_log rs \<and> iteration rs' = iteration rs"
  by (cases rs rule: route_cases) auto

lemma route_raise_trace:
  "route rs = Inl r \<Longrightarrow> trace r = execution_log rs \<and> (\<forall>msg. outcome r \<noteq> Inl (Raised msg))"
proof (cases rs rule: route_cases)
  case (resolver_raises e h)
  assume "route rs = Inl r"
  with resolver_raises have r: "r = raise e (execution_log rs) (self rs) h" by simp
  have "\<forall>msg. e \<noteq> Raised msg"
    using resolver_raises(1)
    by (auto simp: resolve_next_def evaluate_conditional_def nodes_contains_def Let_def
             split: option.splits if_splits sum.splits pyval.splits)
  then show ?thesis using r by simp
qed auto

lemma nodes_getitem_not_Raised: "nodes_getitem g key \<noteq> Inl (Raised msg)"
  by (auto simp: nodes_getitem_def split: pyval.splits option.splits)

lemma countedI1:
  "k \<le> max_iterations \<Longrightarrow> map log_iteration (trace r) = [1..<Suc k] \<Longrightarrow>
     (\<And>msg. outcome r \<noteq> Inl (Raised msg)) \<Longrightarrow> counted r"
  unfolding counted_def by blast

lemma countedI2:
  "k \<le> max_iterations \<Longrightarrow> map log_iteration (trace r) = [1..<Suc k] @ [k] \<Longrightarrow>
     outcome r = Inl (Raised msg) \<Longrightarrow> counted r"
  unfolding counted_def by blast

lemma run_loop_counted:
  assumes "map log_iteration (execution_log rs) = [1..<Suc (iteration rs)]"
    and "iteration rs \<le> max_iterations"
  shows "counted (run_loop rs)"
  using assms
proof (induction rs rule: run_loop.induct)
  case (1 rs)
  show ?case
  proof (cases "truthy (store rs) (current_node_name rs) \<and> iteration rs < max_iterations")
    case False
    then have "run_loop rs = returned rs" by (rule run_loop_exit)
    with "1.prems" show ?thesis by (intro countedI1 [of "iteration rs"]) simp_all
  next
    case True
    then have t: "truthy (store rs) (current_node_name rs)" and i: "iteration rs < max_iterations"
      by simp_all
    have i': "Suc (iteration rs) \<le> max_iterations" using i by simp
    show ?thesis
    proof (cases rs rule: run_body_cases)
      case (lookup e)
      have loop: "run_loop rs = raise e (execution_log rs) (self rs) (store rs)"
        using run_loop_raise [OF t i lookup(2)] .
      have "e \<noteq> Raised msg" for msg
        using lookup(1) nodes_getitem_not_Raised by metis
      then show ?thesis
        unfolding loop using "1.prems" by (intro countedI1 [of "iteration rs"]) simp_all
    next
      case (failed node msg h1)
      show ?thesis
        unfolding run_loop_raise [OF t i failed(3)] using "1.prems"(1) i'
        by (intro countedI2 [of "Suc (iteration rs)" _ msg]) (simp_all add: numeral_2_eq_2)
    next
      case (propagated node msg h1)
      show ?thesis
        unfolding run_loop_raise [OF t i propagated(3)] using "1.prems"(1) i'
        by (intro countedI1 [of "Suc (iteration rs)"]) simp_all
    next
      case (completed node st1 h1)
      let ?rs1 = "after_success rs node st1 h1"
      have log1: "map log_iteration (execution_log ?rs1) = [1..<Suc (Suc (iteration rs))]"
        using "1.prems"(1) by simp
      show ?thesis
      proof (cases "run_body rs")
        case (Inl r)
        then have loop: "run_loop rs = r" using run_loop_raise [OF t i] by simp
        have r: "trace r = execution_log ?rs1 \<and> (\<forall>msg. outcome r \<noteq> Inl (Raised msg))"
          using Inl completed(3) route_raise_trace [of ?rs1 r] by simp
        show ?thesis
          unfolding loop using r log1 i' by (intro countedI1 [of "Suc (iteration rs)"]) simp_all
      next
        case (Inr p)
        obtain brk rs' where p: "p = (brk, rs')" by (cases p)
        have body: "run_body rs = Inr (brk, rs')" using Inr p by simp
        have rs': "execution_log rs' = execution_log ?rs1" "iteration rs' = Suc (iteration rs)"
          using route_log_iteration [of ?rs1 brk rs'] body completed(3) by simp_all
        have loop: "run_loop rs = (if brk then returned rs' else run_loop rs')"
          using run_loop_step [OF t i body] .
        show ?thesis
        proof (cases brk)
          case True
          show ?thesis
            using loop True rs' log1 i' by (intro countedI1 [of "Suc (iteration rs)"]) simp_all
        next
          case False
          have "counted (run_loop rs')"
          proof (rule "1.IH" [OF \<open>truthy (store rs) (current_node_name rs) \<and> iteration rs < max_iterations\<close> body])
            show "(brk, rs') = (brk, rs')" by simp
            show "\<not> brk" by (rule False)
            show "map log_iteration (execution_log rs') = [1..<Suc (iteration rs')]"
              using rs' log1 by simp
            show "iteration rs' \<le> max_iterations" using rs' i by simp
          qed
          then show ?thesis using loop False by simp
        qed
      qed
    qed
  qed
qed

lemma run_body_loop_override:
  assumes "nodes_getitem (self rs) (current_node_name rs) = Inr node"
    and "func node (state rs) (store rs) = (Inr st1, h1)"
    and "dict_get h1 st1 ''loop_continue'' = Some v" and "truthy h1 v"
    and "run_body rs = Inr (brk, rs')"
  shows "\<not> brk \<and>
         current_node_name rs' =
           (case dict_get h1 st1 ''loop_node'' of
              Some w \<Rightarrow> w
            | None \<Rightarrow> (case entry_node (self rs) of None \<Rightarrow> PNone | Some e \<Rightarrow> PStr e)) \<and>
         state rs' = st1 \<and>
         dict_get (store rs') st1 ''loop_continue'' = Some (PBool False)"
proof -
  let ?rs1 = "rs\<lparr>self := store_node (current_node_name rs) (node\<lparr>status := COMPLETED\<rparr>) (self rs),
               store := snd (dict_copy st1 h1),
               state := st1,
               execution_log := execution_log rs @
                 [\<lparr>log_node = current_node_name rs, log_status = ''completed'',
                   log_iteration = Suc (iteration rs), state_snapshot = Some (next_addr h1),
                   log_error = None\<rparr>],
               visited_nodes := insert (current_node_name rs) (visited_nodes rs),
               iteration := Suc (iteration rs)\<rparr>"
  have body: "run_body rs = route ?rs1"
    by (rule run_body_completed [OF assms(1,2)])
  with assms(5) obtain nxt h where res: "resolve_next ?rs1 = (Inr nxt, h)"
    using route_InrD by metis
  have flag: "dict_get (store ?rs1) (state ?rs1) ''loop_continue'' = Some v"
    using assms(3) by simp
  have tr: "truthy (store ?rs1) v"
    using truthy_copy [OF assms(3,4)] by simp
  have entry: "entry_node (self ?rs1) = entry_node (self rs)"
    by (simp add: store_node_def split: pyval.splits)
  have "Inr (brk, rs') = route ?rs1"
    using assms(5) body by simp
  also note route_loop_override [OF res flag tr]
  finally have brk: "\<not> brk" and rs': "rs' = ?rs1\<lparr>current_node_name :=
              (case dict_get (store ?rs1) (state ?rs1) ''loop_node'' of
                 Some w \<Rightarrow> w
               | None \<Rightarrow> (case entry_node (self ?rs1) of None \<Rightarrow> PNone | Some e \<Rightarrow> PStr e)),
            store := dict_set (state ?rs1) ''loop_continue'' (PBool False) h\<rparr>"
    by simp_all
  show ?thesis
    unfolding rs' entry using brk by simp
qed

lemma run_counted: "counted (run g s0 h0)"
proof (cases "entry_node g")
  case None
  then show ?thesis
    by (intro countedI1 [of 0]) (simp_all add: run_def)
next
  case (Some e)
  then show ?thesis
    by (simp add: run_def split_beta run_loop_counted)
qed

lemma keep_spins:
  assumes "map_of (nodes (self rs)) ''a'' = Some node" and "func node = keep"
    and "map_of (edges (self rs)) ''a'' = Some ''a''"
    and "current_node_name rs = PStr ''a''"
    and "dict_get (store rs) (state rs) ''loop_continue'' = None"
    and "iteration rs \<le> max_iterations"
  shows "outcome (run_loop rs) = Inr (state rs) \<and>
         length (trace (run_loop rs)) = length (execution_log rs) + (max_iterations - iteration rs)"
  using assms
proof (induction rs arbitrary: node rule: run_loop.induct)
  case (1 rs)
  show ?case
  proof (cases "iteration rs < max_iterations")
    case False
    then have "run_loop rs = returned rs" by (simp add: run_loop_exit)
    with False "1.prems" show ?thesis by simp
  next
    case True
    have t: "truthy (store rs) (current_node_name rs)" using "1.prems"(4) by simp
    let ?rs1 = "after_success rs node (state rs) (store rs)"
    let ?rs2 = "?rs1\<lparr>current_node_name := PStr ''a'', store := store ?rs1\<rparr>"
    have get: "nodes_getitem (self rs) (current_node_name rs) = Inr node"
      using "1.prems"(1,4) by (simp add: nodes_getitem_def)
    have fn: "func node (state rs) (store rs) = (Inr (state rs), store rs)"
      using "1.prems"(2) by (simp add: keep_def)
    have res: "resolve_next ?rs1 = (Inr (PStr ''a''), store ?rs1)"
      using "1.prems"(3,4) by (simp add: resolve_next_def get_next_node_def startswith_def)
    have nl: "\<not> loop_requested (store ?rs1) (state ?rs1)"
      using "1.prems"(5) by (simp add: loop_requested_def)
    have body: "run_body rs = Inr (False, ?rs2)"
      using run_body_after_success [OF get fn] route_next [OF res nl] by simp
    have "outcome (run_loop ?rs2) = Inr (state ?rs2) \<and>
         length (trace (run_loop ?rs2)) = length (execution_log ?rs2) + (max_iterations - iteration ?rs2)"
    proof (rule "1.IH" [OF _ body])
      show "truthy (store rs) (current_node_name rs) \<and> iteration rs < max_iterations"
        using t True by simp
      show "(False, ?rs2) = (False, ?rs2)" by simp
      show "\<not> False" by simp
      show "map_of (nodes (self ?rs2)) ''a'' = Some (node\<lparr>status := COMPLETED\<rparr>)"
        using "1.prems"(4) by simp
      show "func (node\<lparr>status := COMPLETED\<rparr>) = keep" using "1.prems"(2) by simp
      show "map_of (edges (self ?rs2)) ''a'' = Some ''a''" using "1.prems"(3) by simp
      show "current_node_name ?rs2 = PStr ''a''" by simp
      show "dict_get (store ?rs2) (state ?rs2) ''loop_continue'' = None"
        using "1.prems"(5) by simp
      show "iteration ?rs2 \<le> max_iterations" using True by simp
    qed
    then show ?thesis
      using run_loop_step [OF t True body] True by simp
  qed
qed

lemma run_body_iteration:
  "run_body rs = Inr (brk, rs') \<Longrightarrow> iteration rs' = Suc (iteration rs)"
  by (cases rs rule: run_body_cases) (auto dest: route_log_iteration)

lemma route_self: "route rs = Inr (brk, rs') \<Longrightarrow> self rs' = self rs"
  by (cases rs rule: route_cases) auto

lemma route_state: "route rs = Inr (brk, rs') \<Longrightarrow> state rs' = state rs"
  by (cases rs rule: route_cases) auto

lemma loop_requested_SomeD:
  "loop_requested h st \<Longrightarrow> \<exists>v. dict_get h st ''loop_continue'' = Some v \<and> truthy h v"
  by (auto simp: loop_requested_def split: option.splits)

lemma no_loop_flag_not_requested:
  assumes "no_loop_flag h st"
    and "dict_get h' st' ''loop_continue'' = dict_get h st ''loop_continue''"
  shows "\<not> loop_requested h' st'"
proof (cases "dict_get h st ''loop_continue''")
  case None
  with assms(2) show ?thesis by (simp add: loop_requested_def)
next
  case (Some v)
  with assms(1) have "plain_falsy v" by (simp add: no_loop_flag_def)
  then have "\<not> truthy h' v" by (cases v) simp_all
  with Some assms(2) show ?thesis by (simp add: loop_requested_def)
qed

lemma run_loop_missing_node:
  assumes "current_node_name rs = PStr n" and "n \<noteq> []" and "map_of (nodes (self rs)) n = None"
    and "iteration rs < max_iterations"
  shows "run_loop rs = raise (KeyError (PStr n)) (execution_log rs) (self rs) (store rs)"
proof -
  have "nodes_getitem (self rs) (current_node_name rs) = Inl (KeyError (PStr n))"
    using assms(1,3) by (simp add: nodes_getitem_def)
  then have "run_body rs = Inl (raise (KeyError (PStr n)) (execution_log rs) (self rs) (store rs))"
    by (rule run_body_lookup_error)
  moreover have "truthy (store rs) (current_node_name rs)"
    using assms(1,2) by simp
  ultimately show ?thesis
    using assms(4) by (simp add: run_loop_raise)
qed

lemma dict_get_copy_new [simp]:
  "dict_get (snd (dict_copy a h)) (next_addr h) k = dict_get h a k"
  by (simp add: dict_get_def dict_copy_def)

lemma dict_get_pop_same [simp]: "dict_get (dict_pop st k h) st k = None"
  by (simp add: dict_get_def dict_pop_def AList.delete_conv')

lemma evaluate_conditional_node:
  assumes "dict_get h st ''route_to'' = Some (PStr n)" and "map_of (nodes g) n = Some node"
  shows "evaluate_conditional g marker st h = (Inr (PStr n), dict_pop st ''route_to'' h)"
  using assms by (simp add: evaluate_conditional_def nodes_contains_def Let_def)

lemma keeps_control_keysD:
  assumes "keeps_control_keys f"
  obtains st' h' where "f st h = (Inr st', h')"
    and "dict_get h' st' ''route_to'' = dict_get h st ''route_to''"
    and "dict_get h' st' ''loop_continue'' = dict_get h st ''loop_continue''"
  using assms unfolding keeps_control_keys_def by blast

lemma keeps_control_keys_keep: "keeps_control_keys keep"
  by (simp add: keeps_control_keys_def keep_def)

lemma forget_status_eq_iff:
  "forget_status g' = forget_status g \<longleftrightarrow>
     graph_id g' = graph_id g \<and> edges g' = edges g \<and> entry_node g' = entry_node g \<and>
     map (\<lambda>(k, node). (k, node\<lparr>status := PENDING\<rparr>)) (nodes g')
       = map (\<lambda>(k, node). (k, node\<lparr>status := PENDING\<rparr>)) (nodes g)"
  by (cases g, cases g') (auto simp: forget_status_def)

lemma map_of_reset:
  "map_of (map (\<lambda>(k, node). (k, node\<lparr>status := PENDING\<rparr>)) xs) k
     = map_option (\<lambda>node. node\<lparr>status := PENDING\<rparr>) (map_of xs k)"
  by (induction xs) auto

lemma reset_update:
  "map (\<lambda>(k, node). (k, node\<lparr>status := PENDING\<rparr>)) (AList.update n node xs)
     = AList.update n (node\<lparr>status := PENDING\<rparr>)
         (map (\<lambda>(k, node). (k, node\<lparr>status := PENDING\<rparr>)) xs)"
  by (induction xs) auto

lemma forget_status_lookup:
  assumes "forget_status g' = forget_status g"
  shows "map_option (\<lambda>node. node\<lparr>status := PENDING\<rparr>) (map_of (nodes g') k)
         = map_option (\<lambda>node. node\<lparr>status := PENDING\<rparr>) (map_of (nodes g) k)"
  using assms unfolding forget_status_eq_iff by (metis map_of_reset)

lemma reset_eq_func:
  "node'\<lparr>status := PENDING\<rparr> = node\<lparr>status := PENDING\<rparr> \<Longrightarrow> func node' = func node"
  by (cases node, cases node') simp

lemma forget_status_store_node:
  assumes "forget_status g' = forget_status g"
    and "node'\<lparr>status := PENDING\<rparr> = node\<lparr>status := PENDING\<rparr>"
  shows "forget_status (store_node key node' g') = forget_status (store_node key node g)"
  using assms unfolding forget_status_eq_iff
  by (cases key) (simp_all add: store_node_def reset_update)

lemma forget_status_store_node_same:
  assumes "key = PStr n" and "map_of (nodes g) n = Some node"
  shows "forget_status (store_node key (node\<lparr>status := s\<rparr>) g) = forget_status g"
proof -
  have "AList.update n (node\<lparr>status := PENDING\<rparr>)
          (map (\<lambda>(k, node). (k, node\<lparr>status := PENDING\<rparr>)) (nodes g))
        = map (\<lambda>(k, node). (k, node\<lparr>status := PENDING\<rparr>)) (nodes g)"
    using assms(2) by (intro AList.update_triv) (simp add: map_of_reset)
  then show ?thesis
    using assms(1) unfolding forget_status_eq_iff by (simp add: store_node_def reset_update)
qed

lemma nodes_getitem_forget:
  assumes "forget_status g' = forget_status g"
  shows "nodes_getitem g key = Inl e \<Longrightarrow> nodes_getitem g' key = Inl e"
    and "nodes_getitem g key = Inr node \<Longrightarrow>
           \<exists>node'. nodes_getitem g' key = Inr node' \<and>
                   node'\<lparr>status := PENDING\<rparr> = node\<lparr>status := PENDING\<rparr>"
proof -
  have look: "map_option (\<lambda>node. node\<lparr>status := PENDING\<rparr>) (map_of (nodes g') k)
         = map_option (\<lambda>node. node\<lparr>status := PENDING\<rparr>) (map_of (nodes g) k)" for k
    using assms by (rule forget_status_lookup)
  show "nodes_getitem g key = Inl e \<Longrightarrow> nodes_getitem g' key = Inl e"
  proof (cases key)
    case (PStr n)
    assume "nodes_getitem g key = Inl e"
    then show ?thesis
      using PStr look [of n]
      by (cases "map_of (nodes g) n"; cases "map_of (nodes g') n") (simp_all add: nodes_getitem_def)
  qed (simp_all add: nodes_getitem_def)
  show "nodes_getitem g key = Inr node \<Longrightarrow>
           \<exists>node'. nodes_getitem g' key = Inr node' \<and>
                   node'\<lparr>status := PENDING\<rparr> = node\<lparr>status := PENDING\<rparr>"
  proof (cases key)
    case (PStr n)
    assume "nodes_getitem g key = Inr node"
    then show ?thesis
      using PStr look [of n]
      by (cases "map_of (nodes g) n"; cases "map_of (nodes g') n") (simp_all add: nodes_getitem_def)
  qed (simp_all add: nodes_getitem_def)
qed

lemma nodes_contains_forget:
  assumes "forget_status g' = forget_status g"
  shows "nodes_contains g' key = nodes_contains g key"
proof (cases key)
  case (PStr n)
  then show ?thesis
    using forget_status_lookup [OF assms, of n]
    by (cases "map_of (nodes g) n"; cases "map_of (nodes g') n") (simp_all add: nodes_contains_def)
qed (simp_all add: nodes_contains_def)

lemma route_raise_graph: "route rs = Inl r \<Longrightarrow> graph_after r = self rs"
  by (cases rs rule: route_cases) auto

lemma run_body_keeps_graph:
  "(case run_body rs of
      Inl r \<Rightarrow> forget_status (graph_after r) = forget_status (self rs)
    | Inr (brk, rs2) \<Rightarrow> forget_status (self rs2) = forget_status (self rs))"
proof (cases rs rule: run_body_cases)
  case (lookup e)
  then show ?thesis by simp
next
  case (failed node msg h1)
  from failed(1) obtain n where "current_node_name rs = PStr n" "map_of (nodes (self rs)) n = Some node"
    using nodes_getitem_InrD by blast
  then show ?thesis
    using failed(3) by (simp add: forget_status_store_node_same)
next
  case (propagated node msg h1)
  from propagated(1) obtain n where "current_node_name rs = PStr n" "map_of (nodes (self rs)) n = Some node"
    using nodes_getitem_InrD by blast
  then show ?thesis
    using propagated(3) by (simp add: forget_status_store_node_same)
next
  case (completed node st1 h1)
  from completed(1) obtain n where "current_node_name rs = PStr n" "map_of (nodes (self rs)) n = Some node"
    using nodes_getitem_InrD by blast
  then have g1: "forget_status (self (after_success rs node st1 h1)) = forget_status (self rs)"
    by (simp add: forget_status_store_node_same)
  show ?thesis
  proof (cases "route (after_success rs node st1 h1)")
    case (Inl r)
    then show ?thesis
      using completed(3) g1 route_raise_graph [OF Inl] by simp
  next
    case (Inr p)
    obtain brk rs2 where p: "p = (brk, rs2)" by (cases p)
    then show ?thesis
      using completed(3) g1 Inr route_self [of "after_success rs node st1 h1" brk rs2] by simp
  qed
qed

lemma run_loop_keeps_graph:
  "forget_status (graph_after (run_loop rs)) = forget_status (self rs)"
proof (induction rs rule: run_loop.induct)
  case (1 rs)
  show ?case
  proof (cases "truthy (store rs) (current_node_name rs) \<and> iteration rs < max_iterations")
    case False
    then show ?thesis by (simp add: run_loop_exit)
  next
    case True
    then have t: "truthy (store rs) (current_node_name rs)" and i: "iteration rs < max_iterations"
      by simp_all
    show ?thesis
    proof (cases "run_body rs")
      case (Inl r)
      then show ?thesis
        using run_loop_raise [OF t i Inl] run_body_keeps_graph [of rs] by simp
    next
      case (Inr p)
      obtain brk rs2 where p: "p = (brk, rs2)" by (cases p)
      have body: "run_body rs = Inr (brk, rs2)" using Inr p by simp
      have keep: "forget_status (self rs2) = forget_status (self rs)"
        using run_body_keeps_graph [of rs] body by simp
      show ?thesis
      proof (cases brk)
        case True
        then show ?thesis
          using run_loop_step [OF t i body] keep by simp
      next
        case False
        have "forget_status (graph_after (run_loop rs2)) = forget_status (self rs2)"
          using "1.IH" [OF \<open>truthy (store rs) (current_node_name rs) \<and> iteration rs < max_iterations\<close>
              body refl False] .
        then show ?thesis
          using run_loop_step [OF t i body] keep False by simp
      qed
    qed
  qed
qed

lemma run_keeps_graph: "forget_status (graph_after (run g s0 h0)) = forget_status g"
  by (cases "entry_node g") (simp_all add: run_def split_beta run_loop_keeps_graph)

lemma all_transforms_forget:
  assumes "forget_status g' = forget_status g"
  shows "all_transforms P g' = all_transforms P g"
proof -
  have "P (func node')" if "map_of (nodes a) n = Some node'" "all_transforms P b"
    "forget_status a = forget_status b" for a b n node'
  proof -
    from forget_status_lookup [OF that(3), of n] that(1)
    obtain node where "map_of (nodes b) n = Some node"
      and "node'\<lparr>status := PENDING\<rparr> = node\<lparr>status := PENDING\<rparr>"
      by (cases "map_of (nodes b) n") auto
    then show ?thesis
      using that(2) reset_eq_func unfolding all_transforms_def by metis
  qed
  then show ?thesis
    using assms unfolding all_transforms_def by metis
qed

lemma leaves_aloneD:
  assumes "leaves_alone f p" and "st \<noteq> p" and "p < next_addr h" and "f st h = (r, h')"
  shows "p < next_addr h'" and "dicts h' p = dicts h p" and "r = Inr st' \<Longrightarrow> st' \<noteq> p"
  using assms unfolding leaves_alone_def by (auto split: prod.splits)

lemma resolve_next_frame:
  "a \<noteq> state rs \<Longrightarrow> dicts (snd (resolve_next rs)) a = dicts (store rs) a"
  "next_addr (snd (resolve_next rs)) = next_addr (store rs)"
  "lists (snd (resolve_next rs)) = lists (store rs)"
  by (auto simp: resolve_next_def evaluate_conditional_def dict_pop_def Let_def
           split: option.splits sum.splits)

lemma route_frame:
  assumes "p \<noteq> state rs"
  shows "(case route rs of
            Inl r \<Rightarrow> dicts (heap_after r) p = dicts (store rs) p
          | Inr (brk, rs2) \<Rightarrow> dicts (store rs2) p = dicts (store rs) p \<and>
                              next_addr (store rs2) = next_addr (store rs))"
proof (cases rs rule: route_cases)
  case (resolver_raises e h)
  then show ?thesis
    using resolve_next_frame(1) [OF assms] by simp
next
  case (override nxt h)
  then show ?thesis
    using resolve_next_frame(1) [OF assms] resolve_next_frame(2) [of rs] assms
    by (simp add: dict_set_def)
next
  case (advance nxt h)
  then show ?thesis
    using resolve_next_frame(1) [OF assms] resolve_next_frame(2) [of rs] by simp
qed

lemma run_body_frame:
  assumes "p < next_addr (store rs)" and "state rs \<noteq> p"
    and "all_transforms (\<lambda>f. leaves_alone f p) (self rs)"
  shows "(case run_body rs of
            Inl r \<Rightarrow> dicts (heap_after r) p = dicts (store rs) p
          | Inr (brk, rs2) \<Rightarrow> dicts (store rs2) p = dicts (store rs) p \<and>
                              p < next_addr (store rs2) \<and> state rs2 \<noteq> p)"
proof (cases rs rule: run_body_cases)
  case (lookup e)
  then show ?thesis by simp
next
  case (failed node msg h1)
  from failed(1) obtain n where "map_of (nodes (self rs)) n = Some node"
    using nodes_getitem_InrD by blast
  then have "leaves_alone (func node) p"
    using assms(3) by (simp add: all_transforms_def)
  from leaves_aloneD(2) [OF this assms(2,1) failed(2)] show ?thesis
    using failed(3) by simp
next
  case (propagated node msg h1)
  from propagated(1) obtain n where "map_of (nodes (self rs)) n = Some node"
    using nodes_getitem_InrD by blast
  then have "leaves_alone (func node) p"
    using assms(3) by (simp add: all_transforms_def)
  from leaves_aloneD(2) [OF this assms(2,1) propagated(2)] show ?thesis
    using propagated(3) by simp
next
  case (completed node st1 h1)
  from completed(1) obtain n where "map_of (nodes (self rs)) n = Some node"
    using nodes_getitem_InrD by blast
  then have la: "leaves_alone (func node) p"
    using assms(3) by (simp add: all_transforms_def)
  have p1: "p < next_addr h1" and d1: "dicts h1 p = dicts (store rs) p" and s1: "st1 \<noteq> p"
    using leaves_aloneD [OF la assms(2,1) completed(2)] by simp_all
  let ?rs1 = "after_success rs node st1 h1"
  have d2: "dicts (store ?rs1) p = dicts (store rs) p" and p2: "p < next_addr (store ?rs1)"
    using p1 d1 by (simp_all add: dict_copy_def)
  have ne: "p \<noteq> state ?rs1" using s1 by simp
  show ?thesis
  proof (cases "route ?rs1")
    case (Inl r)
    then show ?thesis
      using completed(3) route_frame [OF ne] d2 by simp
  next
    case (Inr q)
    obtain brk rs2 where q: "q = (brk, rs2)" by (cases q)
    then show ?thesis
      using completed(3) Inr route_frame [OF ne] d2 p2 s1 route_state [of ?rs1 brk rs2]
      by simp
  qed
qed

lemma run_loop_frame:
  assumes "p < next_addr (store rs)" and "state rs \<noteq> p"
    and "all_transforms (\<lambda>f. leaves_alone f p) (self rs)"
  shows "dicts (heap_after (run_loop rs)) p = dicts (store rs) p"
  using assms
proof (induction rs rule: run_loop.induct)
  case (1 rs)
  show ?case
  proof (cases "truthy (store rs) (current_node_name rs) \<and> iteration rs < max_iterations")
    case False
    then show ?thesis by (simp add: run_loop_exit)
  next
    case True
    then have t: "truthy (store rs) (current_node_name rs)" and i: "iteration rs < max_iterations"
      by simp_all
    note frame = run_body_frame [OF "1.prems"]
    show ?thesis
    proof (cases "run_body rs")
      case (Inl r)
      then show ?thesis
        using run_loop_raise [OF t i Inl] frame by simp
    next
      case (Inr q)
      obtain brk rs2 where q: "q = (brk, rs2)" by (cases q)
      have body: "run_body rs = Inr (brk, rs2)" using Inr q by simp
      have f2: "dicts (store rs2) p = dicts (store rs) p" "p < next_addr (store rs2)" "state rs2 \<noteq> p"
        using frame body by simp_all
      have "forget_status (self rs2) = forget_status (self rs)"
        using run_body_keeps_graph [of rs] body by simp
      then have tr2: "all_transforms (\<lambda>f. leaves_alone f p) (self rs2)"
        using "1.prems"(3) all_transforms_forget by blast
      show ?thesis
      proof (cases brk)
        case True
        then show ?thesis
          using run_loop_step [OF t i body] f2 by simp
      next
        case False
        have "dicts (heap_after (run_loop rs2)) p = dicts (store rs2) p"
          using "1.IH" [OF \<open>truthy (store rs) (current_node_name rs) \<and> iteration rs < max_iterations\<close>
              body refl False f2(2,3) tr2] .
        then show ?thesis
          using run_loop_step [OF t i body] f2 False by simp
      qed
    qed
  qed
qed

lemma run_loop_state_frame:
  assumes "p < next_addr (store rs)" and "state rs \<noteq> p"
    and "all_transforms (\<lambda>f. leaves_alone f p) (self rs)"
  shows "outcome (run_loop rs) \<noteq> Inr p"
  using assms
proof (induction rs rule: run_loop.induct)
  case (1 rs)
  show ?case
  proof (cases "truthy (store rs) (current_node_name rs) \<and> iteration rs < max_iterations")
    case False
    then show ?thesis using "1.prems"(2) by (simp add: run_loop_exit)
  next
    case True
    then have t: "truthy (store rs) (current_node_name rs)" and i: "iteration rs < max_iterations"
      by simp_all
    note frame = run_body_frame [OF "1.prems"]
    show ?thesis
    proof (cases "run_body rs")
      case (Inl r)
      have "\<exists>e. outcome r = Inl e"
      proof (cases rs rule: run_body_cases)
        case (completed node st1 h1)
        then show ?thesis
          using Inl by (cases "after_success rs node st1 h1" rule: route_cases) auto
      qed (use Inl in auto)
      then show ?thesis
        using run_loop_raise [OF t i Inl] by auto
    next
      case (Inr q)
      obtain brk rs2 where q: "q = (brk, rs2)" by (cases q)
      have body: "run_body rs = Inr (brk, rs2)" using Inr q by simp
      have f2: "p < next_addr (store rs2)" "state rs2 \<noteq> p"
        using frame body by simp_all
      have "forget_status (self rs2) = forget_status (self rs)"
        using run_body_keeps_graph [of rs] body by simp
      then have tr2: "all_transforms (\<lambda>f. leaves_alone f p) (self rs2)"
        using "1.prems"(3) all_transforms_forget by blast
      show ?thesis
      proof (cases brk)
        case True
        then show ?thesis
          using run_loop_step [OF t i body] f2 by simp
      next
        case False
        have "outcome (run_loop rs2) \<noteq> Inr p"
          using "1.IH" [OF \<open>truthy (store rs) (current_node_name rs) \<and> iteration rs < max_iterations\<close>
              body refl False f2 tr2] .
        then show ?thesis
          using run_loop_step [OF t i body] False by simp
      qed
    qed
  qed
qed

lemma leaves_alone_keep: "leaves_alone keep p"
  by (simp add: leaves_alone_def keep_def)

lemma leaves_alone_append_item: "leaves_alone append_item p"
  by (auto simp: leaves_alone_def append_item_def split: option.splits pyval.splits)

lemma all_transforms_nested_graph: "all_transforms (\<lambda>f. leaves_alone f p) nested_graph"
  by (auto simp: all_transforms_def nested_graph_def leaves_alone_keep leaves_alone_append_item
           split: if_splits)

lemma run_nested: "run nested_graph 0 nested_heap = run_loop start_nested"
  by (simp add: run_def nested_graph_def start_nested_def nested_heap_def dict_copy_def)

lemma truthy_hashable: "hashable v \<Longrightarrow> truthy h' v = truthy h v"
  by (cases v) simp_all

lemma plain_dict_lookup: "plain_dict d \<Longrightarrow> map_of d k = Some v \<Longrightarrow> hashable v"
  by (induction d) (auto simp: plain_dict_def split: if_splits)

lemma plain_dict_delete: "plain_dict d \<Longrightarrow> plain_dict (AList.delete k d)"
  by (induction d) (auto simp: plain_dict_def)

lemma plain_dict_update: "plain_dict d \<Longrightarrow> hashable v \<Longrightarrow> plain_dict (AList.update k v d)"
  by (induction d) (auto simp: plain_dict_def)

lemma content_onlyD:
  assumes "content_only f" and "dicts h' st' = dicts h st" and "plain_dict (dicts h st)"
  shows "f st h = (Inl e, h1) \<Longrightarrow> \<exists>h1'. f st' h' = (Inl e, h1')"
    and "f st h = (Inr s1, h1) \<Longrightarrow>
           \<exists>s1' h1'. f st' h' = (Inr s1', h1') \<and> dicts h1' s1' = dicts h1 s1 \<and> plain_dict (dicts h1 s1)"
proof -
  have c: "(case (f st h, f st' h') of
           ((Inr s1, h1), (Inr s1', h1')) \<Rightarrow> dicts h1' s1' = dicts h1 s1 \<and> plain_dict (dicts h1 s1)
         | ((Inl e, h1), (Inl e', h1')) \<Rightarrow> e' = e
         | _ \<Rightarrow> False)"
    using assms(1) [unfolded content_only_def, rule_format, of h' st' h st] assms(2,3) by simp
  show "f st h = (Inl e, h1) \<Longrightarrow> \<exists>h1'. f st' h' = (Inl e, h1')"
    using c by (cases "f st' h'") (auto split: sum.splits)
  show "f st h = (Inr s1, h1) \<Longrightarrow>
           \<exists>s1' h1'. f st' h' = (Inr s1', h1') \<and> dicts h1' s1' = dicts h1 s1 \<and> plain_dict (dicts h1 s1)"
    using c by (cases "f st' h'") (auto split: sum.splits)
qed

lemma dicts_copy_same [simp]: "dicts (snd (dict_copy a h)) a = dicts h a"
  by (simp add: dict_copy_def)

lemma dicts_copy_new [simp]: "dicts (snd (dict_copy a h)) (next_addr h) = dicts h a"
  by (simp add: dict_copy_def)

lemma evaluate_conditional_view:
  assumes "forget_status g' = forget_status g" and "dicts h' st' = dicts h st"
    and "plain_dict (dicts h st)"
  shows "fst (evaluate_conditional g' marker st' h') = fst (evaluate_conditional g marker st h)"
    and "dicts (snd (evaluate_conditional g' marker st' h')) st'
           = dicts (snd (evaluate_conditional g marker st h)) st"
    and "plain_dict (dicts (snd (evaluate_conditional g marker st h)) st)"
    and "fst (evaluate_conditional g marker st h) = Inr nxt \<Longrightarrow> hashable nxt"
proof -
  have get: "dict_get h' st' ''route_to'' = dict_get h st ''route_to''"
    using assms(2) by (simp add: dict_get_def)
  show "fst (evaluate_conditional g' marker st' h') = fst (evaluate_conditional g marker st h)"
    using get nodes_contains_forget [OF assms(1)]
    by (simp add: evaluate_conditional_def Let_def split: option.splits sum.splits)
  show "dicts (snd (evaluate_conditional g' marker st' h')) st'
           = dicts (snd (evaluate_conditional g marker st h)) st"
    using get assms(2) nodes_contains_forget [OF assms(1)]
    by (simp add: evaluate_conditional_def Let_def dict_pop_def split: option.splits sum.splits)
  show "plain_dict (dicts (snd (evaluate_conditional g marker st h)) st)"
    using assms(3)
    by (simp add: evaluate_conditional_def Let_def dict_pop_def plain_dict_delete
             split: option.splits sum.splits)
  show "fst (evaluate_conditional g marker st h) = Inr nxt \<Longrightarrow> hashable nxt"
    using plain_dict_lookup [OF assms(3), of "''route_to''"]
    by (auto simp: evaluate_conditional_def Let_def dict_get_def split: option.splits sum.splits if_splits)
qed

lemma resolve_next_view:
  assumes "same_view rs rs'"
  shows "fst (resolve_next rs') = fst (resolve_next rs)"
    and "dicts (snd (resolve_next rs')) (state rs') = dicts (snd (resolve_next rs)) (state rs)"
    and "plain_dict (dicts (snd (resolve_next rs)) (state rs))"
    and "fst (resolve_next rs) = Inr nxt \<Longrightarrow> hashable nxt"
proof -
  have g: "forget_status (self rs') = forget_status (self rs)"
    and d: "dicts (store rs') (state rs') = dicts (store rs) (state rs)"
    and p: "plain_dict (dicts (store rs) (state rs))"
    and c: "current_node_name rs' = current_node_name rs"
    using assms by (simp_all add: same_view_def)
  have nx: "get_next_node (self rs') (current_node_name rs') = get_next_node (self rs) (current_node_name rs)"
    using g c by (simp add: forget_status_eq_iff get_next_node_def split: pyval.splits)
  note ev = evaluate_conditional_view [OF g d p]
  show "fst (resolve_next rs') = fst (resolve_next rs)"
    using nx ev(1) by (simp add: resolve_next_def split: option.splits)
  show "dicts (snd (resolve_next rs')) (state rs') = dicts (snd (resolve_next rs)) (state rs)"
    using nx ev(2) d by (simp add: resolve_next_def split: option.splits)
  show "plain_dict (dicts (snd (resolve_next rs)) (state rs))"
    using ev(3) p by (simp add: resolve_next_def split: option.splits)
  show "fst (resolve_next rs) = Inr nxt \<Longrightarrow> hashable nxt"
    using ev(4) by (auto simp: resolve_next_def split: option.splits if_splits)
qed

lemma loop_requested_view:
  assumes "dicts h' st' = dicts h st" and "plain_dict (dicts h st)"
  shows "loop_requested h' st' = loop_requested h st"
proof (cases "map_of (dicts h st) ''loop_continue''")
  case None
  then show ?thesis using assms(1) by (simp add: loop_requested_def dict_get_def)
next
  case (Some v)
  then have "hashable v" using assms(2) plain_dict_lookup by blast
  then have "truthy h' v = truthy h v" by (rule truthy_hashable)
  then show ?thesis using Some assms(1) by (simp add: loop_requested_def dict_get_def)
qed

lemma loop_target_view:
  assumes "forget_status g' = forget_status g" and "dicts h' st' = dicts h st"
  shows "loop_target g' h' st' = loop_target g h st"
  using assms by (simp add: loop_target_def dict_get_def forget_status_eq_iff split: option.splits)

lemma loop_target_hashable:
  assumes "plain_dict (dicts h st)"
  shows "hashable (loop_target g h st)"
proof (cases "map_of (dicts h st) ''loop_node''")
  case None
  then show ?thesis by (simp add: loop_target_def dict_get_def split: option.splits)
next
  case (Some v)
  then have "hashable v" using assms plain_dict_lookup by blast
  then show ?thesis using Some by (simp add: loop_target_def dict_get_def)
qed

lemma final_content_simps [simp]:
  "final_content (raise e lg g h) = Inl e"
  "final_content (returned rs) = Inr (dicts (store rs) (state rs))"
  by (simp_all add: final_content_def)

lemma route_view:
  assumes "same_view rs rs'"
  shows "route rs = Inl r \<Longrightarrow> \<exists>r'. route rs' = Inl r' \<and> same_shape r r'"
    and "route rs = Inr (brk, rs2) \<Longrightarrow> \<exists>rs2'. route rs' = Inr (brk, rs2') \<and> same_view rs2 rs2'"
proof -
  note rv = resolve_next_view [OF assms]
  have g: "forget_status (self rs') = forget_status (self rs)"
    and lg: "map entry_shape (execution_log rs') = map entry_shape (execution_log rs)"
    and it: "iteration rs' = iteration rs"
    using assms by (simp_all add: same_view_def)
  obtain x h' where res': "resolve_next rs' = (x, h')" by (cases "resolve_next rs'")
  have both: "(route rs = Inl r \<longrightarrow> (\<exists>r'. route rs' = Inl r' \<and> same_shape r r')) \<and>
        (route rs = Inr (brk, rs2) \<longrightarrow> (\<exists>rs2'. route rs' = Inr (brk, rs2') \<and> same_view rs2 rs2'))"
  proof (cases rs rule: route_cases)
    case (resolver_raises e h)
    then have "resolve_next rs' = (Inl e, h')"
      using rv(1) res' by simp
    then have "route rs' = Inl (raise e (execution_log rs') (self rs') h')"
      by (rule route_raise)
    then show ?thesis
      using resolver_raises(2) lg by (auto simp: same_shape_def)
  next
    case (override nxt h)
    have r': "resolve_next rs' = (Inr nxt, h')"
      using rv(1) res' override(1) by simp
    have d: "dicts h' (state rs') = dicts h (state rs)" and p: "plain_dict (dicts h (state rs))"
      using rv(2,3) res' override(1) by simp_all
    have "loop_requested h' (state rs')"
      using loop_requested_view [OF d p] override(2) by simp
    then have route': "route rs' = Inr (False, rs'\<lparr>current_node_name := loop_target (self rs') h' (state rs'),
                               store := dict_set (state rs') ''loop_continue'' (PBool False) h'\<rparr>)"
      using r' by (rule route_loop [rotated])
    have "same_view
            (rs\<lparr>current_node_name := loop_target (self rs) h (state rs),
                store := dict_set (state rs) ''loop_continue'' (PBool False) h\<rparr>)
            (rs'\<lparr>current_node_name := loop_target (self rs') h' (state rs'),
                 store := dict_set (state rs') ''loop_continue'' (PBool False) h'\<rparr>)"
      using g lg it d p loop_target_view [OF g d] loop_target_hashable [OF p]
      by (simp add: same_view_def dict_set_def plain_dict_update)
    then show ?thesis
      using override(3) route' by auto
  next
    case (advance nxt h)
    have r': "resolve_next rs' = (Inr nxt, h')"
      using rv(1) res' advance(1) by simp
    have d: "dicts h' (state rs') = dicts h (state rs)" and p: "plain_dict (dicts h (state rs))"
      using rv(2,3) res' advance(1) by simp_all
    have hn: "hashable nxt"
      using rv(4) [of nxt] advance(1) by simp
    have "\<not> loop_requested h' (state rs')"
      using loop_requested_view [OF d p] advance(2) by simp
    then have route': "route rs' = Inr (nxt = PNone, rs'\<lparr>current_node_name := nxt, store := h'\<rparr>)"
      using r' by (rule route_next [rotated])
    have "same_view (rs\<lparr>current_node_name := nxt, store := h\<rparr>)
                    (rs'\<lparr>current_node_name := nxt, store := h'\<rparr>)"
      using g lg it d p hn by (simp add: same_view_def)
    then show ?thesis
      using advance(3) route' by auto
  qed
  show "route rs = Inl r \<Longrightarrow> \<exists>r'. route rs' = Inl r' \<and> same_shape r r'"
    using both by blast
  show "route rs = Inr (brk, rs2) \<Longrightarrow> \<exists>rs2'. route rs' = Inr (brk, rs2') \<and> same_view rs2 rs2'"
    using both by blast
qed

lemma run_body_view:
  assumes "same_view rs rs'" and "all_transforms content_only (self rs)"
  shows "run_body rs = Inl r \<Longrightarrow> \<exists>r'. run_body rs' = Inl r' \<and> same_shape r r'"
    and "run_body rs = Inr (brk, rs2) \<Longrightarrow>
           \<exists>rs2'. run_body rs' = Inr (brk, rs2') \<and> same_view rs2 rs2'"
proof -
  have g: "forget_status (self rs') = forget_status (self rs)"
    and d: "dicts (store rs') (state rs') = dicts (store rs) (state rs)"
    and p: "plain_dict (dicts (store rs) (state rs))"
    and c: "current_node_name rs' = current_node_name rs"
    and hc: "hashable (current_node_name rs)"
    and lg: "map entry_shape (execution_log rs') = map entry_shape (execution_log rs)"
    and it: "iteration rs' = iteration rs"
    using assms(1) by (simp_all add: same_view_def)
  have node': "\<exists>node'. nodes_getitem (self rs') (current_node_name rs') = Inr node' \<and>
                  func node' = func node \<and> content_only (func node) \<and>
                  node'\<lparr>status := PENDING\<rparr> = node\<lparr>status := PENDING\<rparr>"
    if "nodes_getitem (self rs) (current_node_name rs) = Inr node" for node
  proof -
    from nodes_getitem_forget(2) [OF g that] obtain node'
      where n': "nodes_getitem (self rs') (current_node_name rs) = Inr node'"
        and eq: "node'\<lparr>status := PENDING\<rparr> = node\<lparr>status := PENDING\<rparr>"
      by blast
    from that obtain n where "map_of (nodes (self rs)) n = Some node"
      using nodes_getitem_InrD by blast
    then have co: "content_only (func node)"
      using assms(2) by (simp add: all_transforms_def)
    have n'': "nodes_getitem (self rs') (current_node_name rs') = Inr node'"
      using n' c by simp
    have "func node' = func node"
      using eq by (rule reset_eq_func)
    with n'' co eq show ?thesis
      by blast
  qed
  have both: "(run_body rs = Inl r \<longrightarrow> (\<exists>r'. run_body rs' = Inl r' \<and> same_shape r r')) \<and>
        (run_body rs = Inr (brk, rs2) \<longrightarrow>
           (\<exists>rs2'. run_body rs' = Inr (brk, rs2') \<and> same_view rs2 rs2'))"
  proof (cases rs rule: run_body_cases)
    case (lookup e)
    have "nodes_getitem (self rs') (current_node_name rs') = Inl e"
      using nodes_getitem_forget(1) [OF g lookup(1)] c by simp
    then have "run_body rs' = Inl (raise e (execution_log rs') (self rs') (store rs'))"
      by (rule run_body_lookup_error)
    then show ?thesis
      using lookup(2) lg by (auto simp: same_shape_def)
  next
    case (failed node msg h1)
    from node' [OF failed(1)] obtain node'
      where n': "nodes_getitem (self rs') (current_node_name rs') = Inr node'"
        and f: "func node' = func node" and co: "content_only (func node)"
      by blast
    from content_onlyD(1) [OF co d p failed(2)] obtain h1'
      where "func node' (state rs') (store rs') = (Inl (AnException msg), h1')"
      using f by auto
    from run_body_failed [OF n' this] show ?thesis
      using failed(3) lg c it by (auto simp: same_shape_def entry_shape_def)
  next
    case (propagated node msg h1)
    from node' [OF propagated(1)] obtain node'
      where n': "nodes_getitem (self rs') (current_node_name rs') = Inr node'"
        and f: "func node' = func node" and co: "content_only (func node)"
      by blast
    from content_onlyD(1) [OF co d p propagated(2)] obtain h1'
      where "func node' (state rs') (store rs') = (Inl (ABaseException msg), h1')"
      using f by auto
    from run_body_propagated [OF n' this] show ?thesis
      using propagated(3) lg c it by (auto simp: same_shape_def entry_shape_def)
  next
    case (completed node st1 h1)
    from node' [OF completed(1)] obtain node'
      where n': "nodes_getitem (self rs') (current_node_name rs') = Inr node'"
        and f: "func node' = func node" and co: "content_only (func node)"
        and eq: "node'\<lparr>status := PENDING\<rparr> = node\<lparr>status := PENDING\<rparr>"
      by blast
    from content_onlyD(2) [OF co d p completed(2)] obtain st1' h1'
      where fn': "func node' (state rs') (store rs') = (Inr st1', h1')"
        and d1: "dicts h1' st1' = dicts h1 st1" and p1: "plain_dict (dicts h1 st1)"
      using f by auto
    let ?rs1 = "after_success rs node st1 h1"
    let ?rs1' = "after_success rs' node' st1' h1'"
    have body': "run_body rs' = route ?rs1'"
      by (rule run_body_after_success [OF n' fn'])
    have "forget_status (store_node (current_node_name rs) (node'\<lparr>status := COMPLETED\<rparr>) (self rs'))
        = forget_status (store_node (current_node_name rs) (node\<lparr>status := COMPLETED\<rparr>) (self rs))"
      using g eq by (intro forget_status_store_node) simp_all
    then have "forget_status (self ?rs1') = forget_status (self ?rs1)"
      using c by simp
    then have sv: "same_view ?rs1 ?rs1'"
      using d1 p1 c hc it lg by (simp add: same_view_def entry_shape_def)
    show ?thesis
      using route_view [OF sv] completed(3) body' by simp
  qed
  show "run_body rs = Inl r \<Longrightarrow> \<exists>r'. run_body rs' = Inl r' \<and> same_shape r r'"
    using both by blast
  show "run_body rs = Inr (brk, rs2) \<Longrightarrow>
           \<exists>rs2'. run_body rs' = Inr (brk, rs2') \<and> same_view rs2 rs2'"
    using both by blast
qed

lemma run_loop_view:
  assumes "same_view rs rs'" and "all_transforms content_only (self rs)"
  shows "same_shape (run_loop rs) (run_loop rs')"
  using assms
proof (induction rs arbitrary: rs' rule: run_loop.induct)
  case (1 rs)
  have c: "current_node_name rs' = current_node_name rs"
    and hc: "hashable (current_node_name rs)"
    and it: "iteration rs' = iteration rs"
    and d: "dicts (store rs') (state rs') = dicts (store rs) (state rs)"
    and lg: "map entry_shape (execution_log rs') = map entry_shape (execution_log rs)"
    using "1.prems"(1) by (simp_all add: same_view_def)
  have tr: "truthy (store rs') (current_node_name rs') = truthy (store rs) (current_node_name rs)"
    using c truthy_hashable [OF hc] by simp
  show ?case
  proof (cases "truthy (store rs) (current_node_name rs) \<and> iteration rs < max_iterations")
    case False
    then have "run_loop rs = returned rs" and "run_loop rs' = returned rs'"
      using tr it by (simp_all add: run_loop_exit)
    then show ?thesis
      using d lg by (simp add: same_shape_def)
  next
    case True
    then have t: "truthy (store rs) (current_node_name rs)" and i: "iteration rs < max_iterations"
      and t': "truthy (store rs') (current_node_name rs')" and i': "iteration rs' < max_iterations"
      using tr it by simp_all
    show ?thesis
    proof (cases "run_body rs")
      case (Inl r)
      from run_body_view(1) [OF "1.prems" Inl] obtain r'
        where "run_body rs' = Inl r'" "same_shape r r'" by blast
      then show ?thesis
        using run_loop_raise [OF t i Inl] run_loop_raise [OF t' i'] by simp
    next
      case (Inr q)
      obtain brk rs2 where q: "q = (brk, rs2)" by (cases q)
      have body: "run_body rs = Inr (brk, rs2)" using Inr q by simp
      from run_body_view(2) [OF "1.prems" body] obtain rs2'
        where body': "run_body rs' = Inr (brk, rs2')" and sv: "same_view rs2 rs2'" by blast
      have "forget_status (self rs2) = forget_status (self rs)"
        using run_body_keeps_graph [of rs] body by simp
      then have tr2: "all_transforms content_only (self rs2)"
        using "1.prems"(2) all_transforms_forget by blast
      show ?thesis
      proof (cases brk)
        case True
        have "dicts (store rs2') (state rs2') = dicts (store rs2) (state rs2)"
          and "map entry_shape (execution_log rs2') = map entry_shape (execution_log rs2)"
          using sv by (simp_all add: same_view_def)
        then show ?thesis
          using run_loop_step [OF t i body] run_loop_step [OF t' i' body'] True
          by (simp add: same_shape_def)
      next
        case False
        have "same_shape (run_loop rs2) (run_loop rs2')"
          using "1.IH" [OF \<open>truthy (store rs) (current_node_name rs) \<and> iteration rs < max_iterations\<close>
              body refl False sv tr2] .
        then show ?thesis
          using run_loop_step [OF t i body] run_loop_step [OF t' i' body'] False by simp
      qed
    qed
  qed
qed

lemma run_view:
  assumes "forget_status g' = forget_status g" and "dicts h' s' = dicts h s"
    and "plain_dict (dicts h s)" and "all_transforms content_only g"
  shows "same_shape (run g s h) (run g' s' h')"
proof -
  have e: "entry_node g' = entry_node g"
    using assms(1) by (simp add: forget_status_eq_iff)
  show ?thesis
  proof (cases "entry_node g")
    case None
    then show ?thesis
      using e by (simp add: run_def same_shape_def)
  next
    case (Some n)
    let ?rs = "\<lparr>self = g, store = snd (dict_copy s h), state = next_addr h,
       execution_log = [], current_node_name = PStr n, visited_nodes = {}, iteration = 0\<rparr>"
    let ?rs' = "\<lparr>self = g', store = snd (dict_copy s' h'), state = next_addr h',
       execution_log = [], current_node_name = PStr n, visited_nodes = {}, iteration = 0\<rparr>"
    have "same_view ?rs ?rs'"
      using assms(1,2,3) by (simp add: same_view_def)
    then have "same_shape (run_loop ?rs) (run_loop ?rs')"
      using assms(4) by (intro run_loop_view) simp_all
    then show ?thesis
      using Some e by (simp add: run_def dict_copy_def)
  qed
qed

lemma run_caller_dict:
  assumes "s < next_addr h" and "all_transforms (\<lambda>f. leaves_alone f s) g"
  shows "dicts (heap_after (run g s h)) s = dicts h s"
proof (cases "entry_node g")
  case None
  then show ?thesis by (simp add: run_def)
next
  case (Some e)
  let ?rs = "\<lparr>self = g, store = snd (dict_copy s h), state = next_addr h,
       execution_log = [], current_node_name = PStr e, visited_nodes = {}, iteration = 0\<rparr>"
  have "dicts (heap_after (run_loop ?rs)) s = dicts (store ?rs) s"
    using assms by (intro run_loop_frame) (simp_all add: dict_copy_def)
  then show ?thesis
    using Some assms(1) by (simp add: run_def dict_copy_def)
qed

lemma content_only_keep: "content_only keep"
  by (simp add: content_only_def keep_def)

lemma content_only_boom: "content_only boom"
  by (simp add: content_only_def boom_def)

lemma leaves_alone_boom: "leaves_alone boom p"
  by (simp add: leaves_alone_def boom_def)

lemma chain_successor:
  "distinct (pre @ n # rest) \<Longrightarrow>
     map_of (zip (pre @ n # rest) (tl (pre @ n # rest))) n
       = (case rest of [] \<Rightarrow> None | m # _ \<Rightarrow> Some m)"
proof (induction pre)
  case Nil
  then show ?case by (cases rest) simp_all
next
  case (Cons p pre)
  then have "p \<noteq> n" by auto
  moreover have "pre @ n # rest = hd (pre @ n # rest) # tl (pre @ n # rest)"
    by (cases pre) simp_all
  then have "zip ((p # pre) @ n # rest) (tl ((p # pre) @ n # rest))
               = (p, hd (pre @ n # rest)) # zip (pre @ n # rest) (tl (pre @ n # rest))"
    by (metis append_Cons list.sel(3) zip_Cons_Cons)
  ultimately show ?case
    using Cons by simp
qed

lemma linear_chain_forget:
  assumes "forget_status g' = forget_status g"
  shows "linear_chain g' ns = linear_chain g ns"
proof -
  have "map fst (map (\<lambda>(k, node). (k, node\<lparr>status := PENDING\<rparr>)) xs) = map fst xs"
    for xs :: "(string \<times> Node) list"
    by (induction xs) auto
  then have "map fst (nodes g') = map fst (nodes g)"
    using assms unfolding forget_status_eq_iff by metis
  then show ?thesis
    using assms by (simp add: linear_chain_def forget_status_eq_iff)
qed

lemma plain_stepD:
  assumes "plain_step f" and "no_loop_flag h st"
  obtains st' h' where "f st h = (Inr st', h')" and "no_loop_flag h' st'"
  using assms unfolding plain_step_def by blast

lemma no_loop_flag_copy [simp]:
  "no_loop_flag (snd (dict_copy a h)) a = no_loop_flag h a"
  "no_loop_flag (snd (dict_copy a h)) (next_addr h) = no_loop_flag h a"
  by (simp_all add: no_loop_flag_def)

lemma plain_step_keep: "plain_step keep"
  by (simp add: plain_step_def keep_def)

lemma chain_loop:
  assumes "linear_chain (self rs) (pre @ suf)" and "suf \<noteq> []"
    and "current_node_name rs = PStr (hd suf)"
    and "\<forall>n\<in>set suf. n \<noteq> [] \<and> \<not> startswith n ''if_''"
    and "all_transforms plain_step (self rs)"
    and "no_loop_flag (store rs) (state rs)"
  shows "(\<exists>st. outcome (run_loop rs) = Inr st) \<and>
         map log_node (trace (run_loop rs))
           = map log_node (execution_log rs) @ map PStr (take (max_iterations - iteration rs) suf) \<and>
         map log_status (trace (run_loop rs))
           = map log_status (execution_log rs) @
             replicate (min (length suf) (max_iterations - iteration rs)) ''completed''"
  using assms
proof (induction suf arbitrary: rs pre)
  case Nil
  then show ?case by simp
next
  case (Cons n rest)
  show ?case
  proof (cases "iteration rs < max_iterations")
    case False
    then have "run_loop rs = returned rs" by (simp add: run_loop_exit)
    with False show ?thesis by simp
  next
    case True
    have n: "n \<noteq> []" "\<not> startswith n ''if_''"
      using Cons.prems(4) by simp_all
    have t: "truthy (store rs) (current_node_name rs)"
      using Cons.prems(3) n by simp
    have ch: "distinct (pre @ n # rest)" "set (map fst (nodes (self rs))) = set (pre @ n # rest)"
      "map_of (edges (self rs)) = map_of (zip (pre @ n # rest) (tl (pre @ n # rest)))"
      using Cons.prems(1) by (simp_all add: linear_chain_def)
    have "n \<in> set (map fst (nodes (self rs)))"
      unfolding ch(2) by simp
    then have "n \<in> fst ` set (nodes (self rs))"
      by simp
    then obtain node where node: "map_of (nodes (self rs)) n = Some node"
      by (metis map_of_eq_None_iff not_Some_eq)
    then have get: "nodes_getitem (self rs) (current_node_name rs) = Inr node"
      using Cons.prems(3) by (simp add: nodes_getitem_def)
    have "plain_step (func node)"
      using Cons.prems(5) node by (simp add: all_transforms_def)
    then obtain st1 h1 where fn: "func node (state rs) (store rs) = (Inr st1, h1)"
      and nf: "no_loop_flag h1 st1"
      using Cons.prems(6) by (rule plain_stepD)
    let ?rs1 = "after_success rs node st1 h1"
    have body: "run_body rs = route ?rs1"
      by (rule run_body_after_success [OF get fn])
    have succ: "get_next_node (self ?rs1) (current_node_name ?rs1)
                  = (case rest of [] \<Rightarrow> None | m # _ \<Rightarrow> Some m)"
      using Cons.prems(3) ch(3) chain_successor [OF ch(1)] by (simp add: get_next_node_def)
    have nl: "\<not> loop_requested (store ?rs1) (state ?rs1)"
      using no_loop_flag_not_requested [OF nf, of "store ?rs1" st1] by simp
    have entry: "execution_log ?rs1 = execution_log rs @
          [\<lparr>log_node = PStr n, log_status = ''completed'',
            log_iteration = Suc (iteration rs), state_snapshot = Some (next_addr h1),
            log_error = None\<rparr>]"
      using Cons.prems(3) by simp
    have pos: "max_iterations - iteration rs = Suc (max_iterations - Suc (iteration rs))"
      using True by simp
    show ?thesis
    proof (cases rest)
      case Nil
      have "resolve_next ?rs1 = (Inr PNone, store ?rs1)"
        using succ Nil by (simp add: resolve_next_def)
      from route_next [OF this nl]
      have "run_body rs = Inr (True, ?rs1\<lparr>current_node_name := PNone, store := store ?rs1\<rparr>)"
        using body by simp
      from run_loop_step [OF t True this]
      show ?thesis
        using entry Nil pos by simp
    next
      case (Cons m rest')
      have m: "m \<noteq> []" "\<not> startswith m ''if_''"
        using Cons.prems(4) Cons by simp_all
      let ?rs2 = "?rs1\<lparr>current_node_name := PStr m, store := store ?rs1\<rparr>"
      have "resolve_next ?rs1 = (Inr (PStr m), store ?rs1)"
        using succ Cons m by (simp add: resolve_next_def)
      from route_next [OF this nl]
      have step: "run_body rs = Inr (False, ?rs2)"
        using body by simp
      have loop: "run_loop rs = run_loop ?rs2"
        using run_loop_step [OF t True step] by simp
      have fg: "forget_status (self ?rs2) = forget_status (self rs)"
        using run_body_keeps_graph [of rs] step by simp
      have "(\<exists>st. outcome (run_loop ?rs2) = Inr st) \<and>
         map log_node (trace (run_loop ?rs2))
           = map log_node (execution_log ?rs2) @ map PStr (take (max_iterations - iteration ?rs2) rest) \<and>
         map log_status (trace (run_loop ?rs2))
           = map log_status (execution_log ?rs2) @
             replicate (min (length rest) (max_iterations - iteration ?rs2)) ''completed''"
      proof (rule Cons.IH [where pre = "pre @ [n]"])
        show "linear_chain (self ?rs2) ((pre @ [n]) @ rest)"
          using Cons.prems(1) linear_chain_forget [OF fg] by simp
        show "rest \<noteq> []" using Cons by simp
        show "current_node_name ?rs2 = PStr (hd rest)" using Cons by simp
        show "\<forall>n\<in>set rest. n \<noteq> [] \<and> \<not> startswith n ''if_''"
          using Cons.prems(4) by simp
        show "all_transforms plain_step (self ?rs2)"
          using Cons.prems(5) all_transforms_forget [OF fg] by simp
        show "no_loop_flag (store ?rs2) (state ?rs2)"
          using nf by simp
      qed
      then show ?thesis
        unfolding loop using entry pos by simp
    qed
  qed
qed

lemma run_linear_chain:
  assumes "linear_chain g ns" and "\<forall>n\<in>set ns. n \<noteq> [] \<and> \<not> startswith n ''if_''"
    and "all_transforms plain_step g" and "no_loop_flag h0 s0"
  shows "(\<exists>st. outcome (run g s0 h0) = Inr st) \<and>
         map log_node (trace (run g s0 h0)) = map PStr (take max_iterations ns) \<and>
         map log_status (trace (run g s0 h0))
           = replicate (min (length ns) max_iterations) ''completed'' \<and>
         map log_iteration (trace (run g s0 h0)) = [1..<Suc (min (length ns) max_iterations)]"
proof -
  let ?rs = "\<lparr>self = g, store = snd (dict_copy s0 h0), state = next_addr h0,
       execution_log = [], current_node_name = PStr (hd ns), visited_nodes = {}, iteration = 0\<rparr>"
  have run: "run g s0 h0 = run_loop ?rs"
    using assms(1) by (simp add: run_def linear_chain_def dict_copy_def)
  have "(\<exists>st. outcome (run_loop ?rs) = Inr st) \<and>
         map log_node (trace (run_loop ?rs))
           = map log_node (execution_log ?rs) @ map PStr (take (max_iterations - iteration ?rs) ns) \<and>
         map log_status (trace (run_loop ?rs))
           = map log_status (execution_log ?rs) @
             replicate (min (length ns) (max_iterations - iteration ?rs)) ''completed''"
    using assms by (intro chain_loop [where pre = "[]"]) (simp_all add: linear_chain_def)
  then have out: "\<exists>st. outcome (run g s0 h0) = Inr st"
    and nd: "map log_node (trace (run g s0 h0)) = map PStr (take max_iterations ns)"
    and st: "map log_status (trace (run g s0 h0))
           = replicate (min (length ns) max_iterations) ''completed''"
    using run by simp_all
  have len: "length (trace (run g s0 h0)) = min (length ns) max_iterations"
    using arg_cong [OF st, of length] by simp
  from run_counted [of g s0 h0] out
  obtain k where k: "map log_iteration (trace (run g s0 h0)) = [1..<Suc k]"
    unfolding counted_def by (auto simp del: upt_Suc)
  have "length (map log_iteration (trace (run g s0 h0))) = k"
    unfolding k by (simp del: upt_Suc)
  then have "k = min (length ns) max_iterations"
    using len by simp
  then have "map log_iteration (trace (run g s0 h0)) = [1..<Suc (min (length ns) max_iterations)]"
    using k by (simp del: upt_Suc)
  with out nd st show ?thesis by blast
qed

lemma chain_names_props:
  "length (chain_names n) = n"
  "distinct (chain_names n)"
  "\<forall>nm\<in>set (chain_names n). nm \<noteq> [] \<and> \<not> startswith nm ''if_''"
proof -
  show "length (chain_names n) = n"
    by (simp add: chain_names_def)
  have "inj_on (\<lambda>i. replicate (Suc i) CHR ''n'') {0..<n}"
    by (rule inj_onI) (metis length_replicate nat.inject)
  then show "distinct (chain_names n)"
    by (simp add: chain_names_def distinct_map)
  show "\<forall>nm\<in>set (chain_names n). nm \<noteq> [] \<and> \<not> startswith nm ''if_''"
    by (auto simp: chain_names_def startswith_def)
qed

lemma linear_chain_chain_graph:
  assumes "0 < n"
  shows "linear_chain (chain_graph n) (chain_names n)"
proof -
  have "chain_names n \<noteq> []"
    using assms chain_names_props(1) [of n] by auto
  moreover have "map fst (nodes (chain_graph n)) = chain_names n"
    by (simp add: chain_graph_def comp_def)
  ultimately show ?thesis
    using chain_names_props(2) by (simp add: linear_chain_def chain_graph_def)
qed

lemma all_transforms_chain_graph: "all_transforms plain_step (chain_graph n)"
proof -
  have "func node = keep"
    if "map_of (map (\<lambda>nm. (nm, \<lparr>name = nm, func = keep, status = PENDING\<rparr>)) xs) k = Some node"
    for xs k node
    using that by (induction xs) (auto split: if_splits)
  then show ?thesis
    by (auto simp: all_transforms_def chain_graph_def plain_step_keep)
qed

section \<open>Properties of the engine\<close>

subsection \<open>Failure of a transform\<close>

text \<open>
  Claim C4, amended. When the transform of the current node raises an instance of
  \<^verbatim>\<open>Exception\<close> in an iteration of \<^verbatim>\<open>run\<close>, the run ends there by raising that
  failure again, so no later node executes; the node's status is \<open>FAILED\<close> and the
  other nodes keep their status; the entry appended for the attempt has status
  \<^verbatim>\<open>failed\<close> and carries the error message, and the same entry is appended a second
  time, so the trace ends with two equal failure entries. The store is the one the failed
  transform left.
\<close>

theorem transform_failure_aborts_run:
  assumes "truthy (store rs) (current_node_name rs)" and "iteration rs < max_iterations"
    and "nodes_getitem (self rs) (current_node_name rs) = Inr node"
    and "func node (state rs) (store rs) = (Inl (AnException msg), h1)"
  shows "outcome (run_loop rs) = Inl (Raised msg) \<and>
         trace (run_loop rs) = execution_log rs @
           [\<lparr>log_node = current_node_name rs, log_status = ''failed'',
             log_iteration = Suc (iteration rs), state_snapshot = None, log_error = Some msg\<rparr>,
            \<lparr>log_node = current_node_name rs, log_status = ''failed'',
             log_iteration = Suc (iteration rs), state_snapshot = None, log_error = Some msg\<rparr>] \<and>
         heap_after (run_loop rs) = h1 \<and>
         (\<exists>n. current_node_name rs = PStr n \<and>
              map_of (nodes (graph_after (run_loop rs))) n = Some (node\<lparr>status := FAILED\<rparr>) \<and>
              (\<forall>m. m \<noteq> n \<longrightarrow>
                 map_of (nodes (graph_after (run_loop rs))) m = map_of (nodes (self rs)) m))"
proof -
  from assms(3) obtain n where n: "current_node_name rs = PStr n"
    using nodes_getitem_InrD by blast
  have loop: "run_loop rs = raise (Raised msg)
          (execution_log rs @ replicate 2 \<lparr>log_node = current_node_name rs, log_status = ''failed'',
              log_iteration = Suc (iteration rs), state_snapshot = None, log_error = Some msg\<rparr>)
          (store_node (current_node_name rs) (node\<lparr>status := FAILED\<rparr>) (self rs)) h1"
    using assms(1,2) run_body_failed [OF assms(3,4)] by (subst run_loop.simps) simp
  show ?thesis
    unfolding loop using n
    by (simp add: raise_def store_node_def numeral_2_eq_2 AList.update_conv')
qed

theorem transform_failure_aborts_run_witness:
  "truthy (store start_B) (current_node_name start_B) \<and> iteration start_B < max_iterations \<and>
   nodes_getitem (self start_B) (current_node_name start_B)
     = Inr \<lparr>name = ''a'', func = boom, status = PENDING\<rparr> \<and>
   boom (state start_B) (store start_B) = (Inl (AnException ''boom''), store start_B) \<and>
   outcome (run_loop start_B) = Inl (Raised ''boom'') \<and>
   map log_status (trace (run_loop start_B)) = [''failed'', ''failed''] \<and>
   map log_error (trace (run_loop start_B)) = [Some ''boom'', Some ''boom''] \<and>
   map_of (nodes (graph_after (run_loop start_B))) ''a''
     = Some \<lparr>name = ''a'', func = boom, status = FAILED\<rparr> \<and>
   map_of (nodes (graph_after (run_loop start_B))) ''b''
     = Some \<lparr>name = ''b'', func = keep, status = PENDING\<rparr>"
proof -
  have h1: "truthy (store start_B) (current_node_name start_B)"
    by (simp add: start_B_def)
  have h2: "iteration start_B < max_iterations"
    by (simp add: start_B_def max_iterations_def)
  have h3: "nodes_getitem (self start_B) (current_node_name start_B)
     = Inr \<lparr>name = ''a'', func = boom, status = PENDING\<rparr>"
    by (simp add: start_B_def scenario_B_def nodes_getitem_def)
  have h4: "func \<lparr>name = ''a'', func = boom, status = PENDING\<rparr> (state start_B) (store start_B)
     = (Inl (AnException ''boom''), store start_B)"
    by (simp add: boom_def)
  show ?thesis
    using transform_failure_aborts_run [OF h1 h2 h3 h4] h1 h2 h3 h4
    by (auto simp: start_B_def scenario_B_def)
qed

text \<open>
  Claim C4 as stated fails for a transform that raises \<^verbatim>\<open>KeyboardInterrupt\<close>, which is
  no instance of \<^verbatim>\<open>Exception\<close>: the exception leaves \<^verbatim>\<open>run\<close>, but the node's status
  stays \<open>RUNNING\<close> and the trace ends with the one entry of the attempt, its status still
  \<^verbatim>\<open>running\<close> and without an error message.
\<close>

theorem uncaught_failure_counterexample:
  "interrupt 1 (snd (dict_copy 0 (snd (new_dict [] empty_heap))))
     = (Inl (ABaseException ''KeyboardInterrupt''), snd (dict_copy 0 (snd (new_dict [] empty_heap)))) \<and>
   outcome (run interrupted_graph 0 (snd (new_dict [] empty_heap)))
     = Inl (Propagated ''KeyboardInterrupt'') \<and>
   map log_status (trace (run interrupted_graph 0 (snd (new_dict [] empty_heap)))) = [''running''] \<and>
   map log_error (trace (run interrupted_graph 0 (snd (new_dict [] empty_heap)))) = [None] \<and>
   map_of (nodes (graph_after (run interrupted_graph 0 (snd (new_dict [] empty_heap))))) ''a''
     = Some \<lparr>name = ''a'', func = interrupt, status = RUNNING\<rparr>"
  by (simp add: engine_defs example_defs interrupted_graph_def interrupt_def run_loop.simps)

subsection \<open>The loop override\<close>

text \<open>
  Claim C8, amended. An iteration in which the node executed, the state it returned holds a true
  \<^verbatim>\<open>loop_continue\<close>, and a next node was computed without raising: the iteration does
  not end the loop, the next node is the state's \<^verbatim>\<open>loop_node\<close> (the entry node when the
  key is absent) whatever the static edge or the resolver gave, and \<^verbatim>\<open>loop_continue\<close>
  is \<^verbatim>\<open>False\<close> in the state when the loop continues, so one setting of the flag gives
  one jump.
\<close>

theorem loop_override_precedence:
  assumes "nodes_getitem (self rs) (current_node_name rs) = Inr node"
    and "func node (state rs) (store rs) = (Inr st1, h1)"
    and "dict_get h1 st1 ''loop_continue'' = Some v" and "truthy h1 v"
    and "run_body rs = Inr (brk, rs')"
  shows "\<not> brk \<and>
         current_node_name rs' =
           (case dict_get h1 st1 ''loop_node'' of
              Some w \<Rightarrow> w
            | None \<Rightarrow> (case entry_node (self rs) of None \<Rightarrow> PNone | Some e \<Rightarrow> PStr e)) \<and>
         state rs' = st1 \<and>
         dict_get (store rs') st1 ''loop_continue'' = Some (PBool False)"
  using assms by (rule run_body_loop_override)

theorem loop_override_precedence_witness:
  "nodes_getitem (self start_loop) (current_node_name start_loop)
     = Inr \<lparr>name = ''a'', func = request_loop ''b'', status = PENDING\<rparr> \<and>
   get_next_node (self start_loop) (current_node_name start_loop) = Some ''c'' \<and>
   (\<exists>brk rs'. run_body start_loop = Inr (brk, rs') \<and> \<not> brk \<and>
      current_node_name rs' = PStr ''b'' \<and> state rs' = 0 \<and>
      dict_get (store rs') 0 ''loop_continue'' = Some (PBool False))"
proof -
  let ?h1 = "dict_set 0 ''loop_node'' (PStr ''b'')
               (dict_set 0 ''loop_continue'' (PBool True) (store start_loop))"
  have h1: "nodes_getitem (self start_loop) (current_node_name start_loop)
     = Inr \<lparr>name = ''a'', func = request_loop ''b'', status = PENDING\<rparr>"
    by (simp add: start_loop_def loop_graph_def nodes_getitem_def)
  have h2: "func \<lparr>name = ''a'', func = request_loop ''b'', status = PENDING\<rparr>
              (state start_loop) (store start_loop) = (Inr 0, ?h1)"
    by (simp add: request_loop_def start_loop_def)
  have h3: "dict_get ?h1 0 ''loop_continue'' = Some (PBool True)"
    by (simp add: dict_get_def dict_set_def start_loop_def new_dict_def empty_heap_def)
  have h4: "truthy ?h1 (PBool True)"
    by simp
  have "\<exists>brk rs'. run_body start_loop = Inr (brk, rs')"
    unfolding run_body_completed [OF h1 h2]
    by (auto simp: engine_defs example_defs start_loop_def loop_graph_def request_loop_def)
  then obtain brk rs' where h5: "run_body start_loop = Inr (brk, rs')"
    by blast
  have nxt: "get_next_node (self start_loop) (current_node_name start_loop) = Some ''c''"
    by (simp add: get_next_node_def start_loop_def loop_graph_def)
  have "dict_get ?h1 0 ''loop_node'' = Some (PStr ''b'')"
    by (simp add: dict_get_def dict_set_def start_loop_def new_dict_def empty_heap_def)
  with loop_override_precedence [OF h1 h2 h3 h4 h5]
  have "\<not> brk \<and> current_node_name rs' = PStr ''b'' \<and> state rs' = 0 \<and>
      dict_get (store rs') 0 ''loop_continue'' = Some (PBool False)"
    by simp
  with h1 nxt h5 show ?thesis
    by blast
qed

text \<open>
  Claim C8 as stated fails when the next-node computation raises. The graph is built with
  \<^verbatim>\<open>add_node\<close> and \<^verbatim>\<open>add_edge\<close>; node \<^verbatim>\<open>a\<close> sets \<^verbatim>\<open>loop_continue\<close> and its
  static successor is a marker; the state's \<^verbatim>\<open>route_to\<close> is a list. The resolver raises
  \<^verbatim>\<open>TypeError\<close> before the flag is looked at: the run ends with the one completed entry
  and \<^verbatim>\<open>loop_continue\<close> is still \<^verbatim>\<open>True\<close> in the state.
\<close>

theorem loop_override_counterexample:
  "add_edge ''a'' ''if_x''
     (add_node ''if_x'' keep (add_node ''b'' keep
        (add_node ''a'' (request_loop ''b'') (new_graph ''marker'')))) = Inr marker_loop_graph \<and>
   outcome (run marker_loop_graph 0 unhashable_route_heap)
     = Inl (TypeError (''unhashable type: '' @ quoted ''list'')) \<and>
   map log_node (trace (run marker_loop_graph 0 unhashable_route_heap)) = [PStr ''a''] \<and>
   map log_status (trace (run marker_loop_graph 0 unhashable_route_heap)) = [''completed''] \<and>
   dict_get (heap_after (run marker_loop_graph 0 unhashable_route_heap)) 2 ''loop_continue''
     = Some (PBool True)"
  by (simp add: engine_defs example_defs marker_loop_graph_def unhashable_route_heap_def
        request_loop_def add_edge_def add_node_def new_graph_def run_loop.simps)

subsection \<open>The conditional routing resolver\<close>

text \<open>
  Claim C7, amended. When the state has no \<^verbatim>\<open>route_to\<close> key the resolver returns
  \<^verbatim>\<open>None\<close> and changes nothing. When the key is present it is removed, the other keys
  of the state keep their values, and, for a hashable value, the resolver returns the value
  if it names a node of the graph and \<^verbatim>\<open>None\<close> otherwise.
\<close>

theorem resolver_consumes_route_to:
  "(case dict_get h st ''route_to'' of
      None \<Rightarrow> evaluate_conditional g marker st h = (Inr PNone, h)
    | Some v \<Rightarrow>
        dict_get (snd (evaluate_conditional g marker st h)) st ''route_to'' = None \<and>
        (\<forall>k. k \<noteq> ''route_to'' \<longrightarrow>
           dict_get (snd (evaluate_conditional g marker st h)) st k = dict_get h st k) \<and>
        (hashable v \<longrightarrow>
           fst (evaluate_conditional g marker st h)
             = Inr (if is_node_name g v then v else PNone)))"
proof (cases "dict_get h st ''route_to''")
  case None
  then show ?thesis by (simp add: evaluate_conditional_def)
next
  case (Some v)
  have "dict_get (snd (evaluate_conditional g marker st h)) st ''route_to'' = None"
    using Some
    by (simp add: evaluate_conditional_def Let_def dict_get_def dict_pop_def AList.delete_conv'
             split: sum.splits)
  moreover have "hashable v \<Longrightarrow>
      fst (evaluate_conditional g marker st h) = Inr (if is_node_name g v then v else PNone)"
    using Some
    by (cases v) (simp_all add: evaluate_conditional_def Let_def nodes_contains_def is_node_name_def)
  ultimately show ?thesis
    using Some by (simp add: evaluate_conditional_other_key)
qed

theorem resolver_consumes_route_to_witness:
  "dict_get routed_heap 0 ''route_to'' = Some (PStr ''c'') \<and> hashable (PStr ''c'') \<and>
   ''x'' \<noteq> ''route_to'' \<and>
   dict_get (snd (evaluate_conditional loop_graph ''if_x'' 0 routed_heap)) 0 ''route_to'' = None \<and>
   dict_get (snd (evaluate_conditional loop_graph ''if_x'' 0 routed_heap)) 0 ''x'' = Some (PInt 1) \<and>
   fst (evaluate_conditional loop_graph ''if_x'' 0 routed_heap) = Inr (PStr ''c'')"
proof -
  have g: "dict_get routed_heap 0 ''route_to'' = Some (PStr ''c'')"
    by (simp add: routed_heap_def new_dict_def empty_heap_def dict_get_def)
  have x: "dict_get routed_heap 0 ''x'' = Some (PInt 1)"
    by (simp add: routed_heap_def new_dict_def empty_heap_def dict_get_def)
  have n: "is_node_name loop_graph (PStr ''c'')"
    by (simp add: is_node_name_def loop_graph_def)
  show ?thesis
    using resolver_consumes_route_to [where h = routed_heap and st = 0 and g = loop_graph
            and marker = "''if_x''"] g x n
    by simp
qed

text \<open>
  Claim C7 as stated fails for a \<^verbatim>\<open>route_to\<close> that is a list: it names no node, and the
  resolver does not return \<^verbatim>\<open>None\<close>, the membership test raises \<^verbatim>\<open>TypeError\<close>.
\<close>

theorem resolver_unhashable_counterexample:
  "dict_get unhashable_route_heap 0 ''route_to'' = Some (PListRef 1) \<and>
   \<not> is_node_name loop_graph (PListRef 1) \<and>
   fst (evaluate_conditional loop_graph ''if_x'' 0 unhashable_route_heap)
     = Inl (TypeError (''unhashable type: '' @ quoted ''list'')) \<and>
   fst (evaluate_conditional loop_graph ''if_x'' 0 unhashable_route_heap) \<noteq> Inr PNone"
  by (simp add: unhashable_route_heap_def dict_get_def is_node_name_def evaluate_conditional_def
        nodes_contains_def Let_def)

subsection \<open>The iteration ceiling\<close>

text \<open>
  Claim C3. The ceiling is 100. The iteration numbers of the trace of any run are
  \<open>1, \<dots>, k\<close> for some \<open>k\<close> of at most 100, one entry for each attempt, followed by a
  second entry for attempt \<open>k\<close> exactly when the run ended by re-raising the failure of a
  transform; so no run makes more than 100 attempts. A loop that has used up the 100
  iterations ends like a loop that ran out of nodes: \<^verbatim>\<open>run\<close> returns the state and the
  trace it has, whatever the next node would have been.
\<close>

theorem run_stops_at_ceiling:
  "max_iterations = 100 \<and>
   (\<exists>k\<le>100.
      (map log_iteration (trace (run g s0 h0)) = [1..<Suc k] \<and>
       (\<forall>msg. outcome (run g s0 h0) \<noteq> Inl (Raised msg))) \<or>
      (map log_iteration (trace (run g s0 h0)) = [1..<Suc k] @ [k] \<and>
       (\<exists>msg. outcome (run g s0 h0) = Inl (Raised msg)))) \<and>
   (max_iterations \<le> iteration rs \<longrightarrow>
      outcome (run_loop rs) = Inr (state rs) \<and> trace (run_loop rs) = execution_log rs \<and>
      graph_after (run_loop rs) = self rs \<and> heap_after (run_loop rs) = store rs)"
proof -
  have "max_iterations \<le> iteration rs \<Longrightarrow> run_loop rs = returned rs"
    by (rule run_loop_exit) simp
  moreover have "\<exists>k\<le>100.
      (map log_iteration (trace (run g s0 h0)) = [1..<Suc k] \<and>
       (\<forall>msg. outcome (run g s0 h0) \<noteq> Inl (Raised msg))) \<or>
      (map log_iteration (trace (run g s0 h0)) = [1..<Suc k] @ [k] \<and>
       (\<exists>msg. outcome (run g s0 h0) = Inl (Raised msg)))"
    using run_counted [of g s0 h0] unfolding counted_def max_iterations_def .
  ultimately show ?thesis
    by (simp add: max_iterations_def)
qed

text \<open>
  A node with an edge to itself is executed 100 times, and the run returns normally with
  the 100 entries.
\<close>

theorem run_stops_at_ceiling_witness:
  "outcome (run spin_graph 0 (snd (new_dict [] empty_heap))) = Inr 1 \<and>
   map log_iteration (trace (run spin_graph 0 (snd (new_dict [] empty_heap)))) = [1..<101]"
proof -
  let ?h = "snd (new_dict [] empty_heap)"
  let ?rs = "\<lparr>self = spin_graph, store = snd (dict_copy 0 ?h), state = 1, execution_log = [],
              current_node_name = PStr ''a'', visited_nodes = {}, iteration = 0\<rparr>"
  have run: "run spin_graph 0 ?h = run_loop ?rs"
    by (simp add: run_def spin_graph_def dict_copy_def new_dict_def empty_heap_def)
  have "outcome (run_loop ?rs) = Inr (state ?rs) \<and>
         length (trace (run_loop ?rs)) = length (execution_log ?rs) + (max_iterations - iteration ?rs)"
    by (rule keep_spins [where node = "\<lparr>name = ''a'', func = keep, status = PENDING\<rparr>"])
       (simp_all add: spin_graph_def dict_get_def dict_copy_def new_dict_def empty_heap_def)
  then have out: "outcome (run spin_graph 0 ?h) = Inr 1"
    and len: "length (trace (run spin_graph 0 ?h)) = 100"
    using run by (simp_all add: max_iterations_def)
  have "\<exists>k\<le>100.
      (map log_iteration (trace (run spin_graph 0 ?h)) = [1..<Suc k] \<and>
       (\<forall>msg. outcome (run spin_graph 0 ?h) \<noteq> Inl (Raised msg))) \<or>
      (map log_iteration (trace (run spin_graph 0 ?h)) = [1..<Suc k] @ [k] \<and>
       (\<exists>msg. outcome (run spin_graph 0 ?h) = Inl (Raised msg)))"
    using run_stops_at_ceiling [of spin_graph 0 ?h ?rs] by (rule conjunct1 [OF conjunct2])
  then obtain k where k: "map log_iteration (trace (run spin_graph 0 ?h)) = [1..<Suc k]"
    using out by (auto simp del: upt_Suc)
  have "length (map log_iteration (trace (run spin_graph 0 ?h))) = k"
    unfolding k by simp
  then have "k = 100" using len by simp
  with k out show ?thesis by (simp del: upt_Suc)
qed

subsection \<open>Node names that are not validated\<close>

text \<open>
  Claim C10, amended. \<^verbatim>\<open>run\<close> checks only that the entry node is set: without one it
  raises \<^verbatim>\<open>ValueError\<close>. An entry node that is a non-empty name absent from the node set
  makes the first iteration raise \<^verbatim>\<open>KeyError\<close> with an empty trace. In an iteration that
  completes with the loop override taken and a \<^verbatim>\<open>loop_node\<close> that is a non-empty name
  absent from the node set, the override makes that name the current node without
  validation, and when the ceiling leaves room for another iteration the run ends by
  raising \<^verbatim>\<open>KeyError\<close> for it.
\<close>

theorem unvalidated_names_raise_KeyError:
  "(entry_node g = None \<longrightarrow>
      outcome (run g s0 h0) = Inl (ValueError ''No entry node defined'')) \<and>
   (\<forall>e. entry_node g = Some e \<and> e \<noteq> [] \<and> map_of (nodes g) e = None \<longrightarrow>
      outcome (run g s0 h0) = Inl (KeyError (PStr e)) \<and> trace (run g s0 h0) = []) \<and>
   (\<forall>node st1 h1 n brk rs'.
      truthy (store rs) (current_node_name rs) \<and> Suc (iteration rs) < max_iterations \<and>
      nodes_getitem (self rs) (current_node_name rs) = Inr node \<and>
      func node (state rs) (store rs) = (Inr st1, h1) \<and>
      loop_requested h1 st1 \<and> dict_get h1 st1 ''loop_node'' = Some (PStr n) \<and>
      n \<noteq> [] \<and> map_of (nodes (self rs)) n = None \<and>
      run_body rs = Inr (brk, rs') \<longrightarrow>
      current_node_name rs' = PStr n \<and> outcome (run_loop rs) = Inl (KeyError (PStr n)))"
proof (intro conjI allI impI)
  assume "entry_node g = None"
  then show "outcome (run g s0 h0) = Inl (ValueError ''No entry node defined'')"
    by (simp add: run_def)
next
  fix e
  assume e: "entry_node g = Some e \<and> e \<noteq> [] \<and> map_of (nodes g) e = None"
  let ?rs = "\<lparr>self = g, store = snd (dict_copy s0 h0), state = fst (dict_copy s0 h0),
       execution_log = [], current_node_name = PStr e, visited_nodes = {}, iteration = 0\<rparr>"
  have "run g s0 h0 = run_loop ?rs"
    using e by (simp add: run_def split_beta)
  also have "\<dots> = raise (KeyError (PStr e)) (execution_log ?rs) (self ?rs) (store ?rs)"
    using e by (intro run_loop_missing_node) (simp_all add: max_iterations_def)
  finally show "outcome (run g s0 h0) = Inl (KeyError (PStr e))" and "trace (run g s0 h0) = []"
    by simp_all
next
  fix node st1 h1 n brk rs'
  assume a: "truthy (store rs) (current_node_name rs) \<and> Suc (iteration rs) < max_iterations \<and>
      nodes_getitem (self rs) (current_node_name rs) = Inr node \<and>
      func node (state rs) (store rs) = (Inr st1, h1) \<and>
      loop_requested h1 st1 \<and> dict_get h1 st1 ''loop_node'' = Some (PStr n) \<and>
      n \<noteq> [] \<and> map_of (nodes (self rs)) n = None \<and>
      run_body rs = Inr (brk, rs')"
  then have get: "nodes_getitem (self rs) (current_node_name rs) = Inr node"
    and fn: "func node (state rs) (store rs) = (Inr st1, h1)"
    and body: "run_body rs = Inr (brk, rs')"
    by simp_all
  from a obtain v where v: "dict_get h1 st1 ''loop_continue'' = Some v" "truthy h1 v"
    using loop_requested_SomeD by blast
  have ov: "\<not> brk" "current_node_name rs' = PStr n"
    using run_body_loop_override [OF get fn v body] a by simp_all
  from get obtain m where m: "current_node_name rs = PStr m" "map_of (nodes (self rs)) m = Some node"
    using nodes_getitem_InrD by blast
  have "route (after_success rs node st1 h1) = Inr (brk, rs')"
    using body run_body_after_success [OF get fn] by simp
  then have "self rs' = self (after_success rs node st1 h1)"
    by (rule route_self)
  then have absent: "map_of (nodes (self rs')) n = None"
    using m a by auto
  have it: "iteration rs' < max_iterations"
    using run_body_iteration [OF body] a by simp
  have "run_loop rs = run_loop rs'"
    using run_loop_step [of rs brk rs'] a body ov(1) by simp
  also have "\<dots> = raise (KeyError (PStr n)) (execution_log rs') (self rs') (store rs')"
    using ov(2) a absent it by (intro run_loop_missing_node) simp_all
  finally show "current_node_name rs' = PStr n" and "outcome (run_loop rs) = Inl (KeyError (PStr n))"
    using ov(2) by simp_all
qed

theorem unvalidated_names_raise_KeyError_witness:
  "entry_node ghost_entry_graph = Some ''ghost'' \<and> ''ghost'' \<noteq> [] \<and>
   map_of (nodes ghost_entry_graph) ''ghost'' = None \<and>
   outcome (run ghost_entry_graph 0 (snd (new_dict [] empty_heap))) = Inl (KeyError (PStr ''ghost'')) \<and>
   trace (run ghost_entry_graph 0 (snd (new_dict [] empty_heap))) = [] \<and>
   truthy (store start_ghost_loop) (current_node_name start_ghost_loop) \<and>
   Suc (iteration start_ghost_loop) < max_iterations \<and>
   map_of (nodes (self start_ghost_loop)) ''ghost'' = None \<and>
   (\<exists>brk rs'. run_body start_ghost_loop = Inr (brk, rs') \<and> current_node_name rs' = PStr ''ghost'') \<and>
   outcome (run_loop start_ghost_loop) = Inl (KeyError (PStr ''ghost''))"
proof -
  let ?h = "snd (new_dict [] empty_heap)"
  let ?h1 = "dict_set 0 ''loop_node'' (PStr ''ghost'')
               (dict_set 0 ''loop_continue'' (PBool True) (store start_ghost_loop))"
  let ?node = "\<lparr>name = ''a'', func = request_loop ''ghost'', status = PENDING\<rparr>"
  note inst = unvalidated_names_raise_KeyError [of ghost_entry_graph 0 ?h start_ghost_loop]
  have e: "entry_node ghost_entry_graph = Some ''ghost'' \<and> ''ghost'' \<noteq> [] \<and>
           map_of (nodes ghost_entry_graph) ''ghost'' = None"
    by (simp add: ghost_entry_graph_def)
  have part1: "outcome (run ghost_entry_graph 0 ?h) = Inl (KeyError (PStr ''ghost'')) \<and>
               trace (run ghost_entry_graph 0 ?h) = []"
    using inst [THEN conjunct2, THEN conjunct1, rule_format, OF e] .
  have t: "truthy (store start_ghost_loop) (current_node_name start_ghost_loop)"
    by (simp add: start_ghost_loop_def)
  have i: "Suc (iteration start_ghost_loop) < max_iterations"
    by (simp add: start_ghost_loop_def max_iterations_def)
  have get: "nodes_getitem (self start_ghost_loop) (current_node_name start_ghost_loop) = Inr ?node"
    by (simp add: start_ghost_loop_def ghost_loop_graph_def nodes_getitem_def)
  have fn: "func ?node (state start_ghost_loop) (store start_ghost_loop) = (Inr 0, ?h1)"
    by (simp add: request_loop_def start_ghost_loop_def)
  have lr: "loop_requested ?h1 0"
    by (simp add: loop_requested_def dict_get_def dict_set_def start_ghost_loop_def
          new_dict_def empty_heap_def)
  have ln: "dict_get ?h1 0 ''loop_node'' = Some (PStr ''ghost'')"
    by (simp add: dict_get_def dict_set_def start_ghost_loop_def new_dict_def empty_heap_def)
  have absent: "map_of (nodes (self start_ghost_loop)) ''ghost'' = None"
    by (simp add: start_ghost_loop_def ghost_loop_graph_def)
  have "\<exists>brk rs'. run_body start_ghost_loop = Inr (brk, rs')"
    unfolding run_body_after_success [OF get fn]
    by (auto simp: engine_defs example_defs after_success_def start_ghost_loop_def
          ghost_loop_graph_def request_loop_def)
  then obtain brk rs' where body: "run_body start_ghost_loop = Inr (brk, rs')"
    by blast
  have part2: "current_node_name rs' = PStr ''ghost'' \<and>
               outcome (run_loop start_ghost_loop) = Inl (KeyError (PStr ''ghost''))"
    using inst [THEN conjunct2, THEN conjunct2, rule_format, of ?node 0 ?h1 "''ghost''" brk rs']
      t i get fn lr ln absent body by simp
  show ?thesis
    using e part1 t i absent body part2 by blast
qed

text \<open>
  Claim C10 as stated fails for the empty name: it is absent from the node set, and the
  run with it as entry node returns normally with an empty trace, since the loop tests the
  truth value of the name.
\<close>

theorem unvalidated_names_counterexample:
  "entry_node unnamed_entry_graph = Some '''' \<and>
   map_of (nodes unnamed_entry_graph) '''' = None \<and>
   outcome (run unnamed_entry_graph 0 (snd (new_dict [] empty_heap))) = Inr 1 \<and>
   trace (run unnamed_entry_graph 0 (snd (new_dict [] empty_heap))) = []"
  by (simp add: unnamed_entry_graph_def run_def dict_copy_def new_dict_def empty_heap_def
        run_loop_exit)

subsection \<open>The conditional marker\<close>



subsection \<open>The caller's state\<close>

text \<open>
  Claim C5, amended. \<^verbatim>\<open>run\<close> works on a shallow copy of the initial state: a new
  dictionary with the same bindings. The caller's dictionary itself is never written by
  the engine, and the state that \<^verbatim>\<open>run\<close> returns is another object: when no transform
  of the graph writes to the caller's dictionary or returns it, its bindings after the
  run, returned or raised, are the bindings before. The values bound in it are shared
  with the working copy.
\<close>

theorem run_leaves_caller_dict:
  assumes "initial_state < next_addr h0"
    and "all_transforms (\<lambda>f. leaves_alone f initial_state) g"
  shows "dicts (heap_after (run g initial_state h0)) initial_state = dicts h0 initial_state \<and>
         outcome (run g initial_state h0) \<noteq> Inr initial_state"
proof (cases "entry_node g")
  case None
  then show ?thesis by (simp add: run_def)
next
  case (Some e)
  let ?rs = "\<lparr>self = g, store = snd (dict_copy initial_state h0), state = next_addr h0,
       execution_log = [], current_node_name = PStr e, visited_nodes = {}, iteration = 0\<rparr>"
  have run: "run g initial_state h0 = run_loop ?rs"
    using Some by (simp add: run_def dict_copy_def)
  have p: "initial_state < next_addr (store ?rs)" and s: "state ?rs \<noteq> initial_state"
    and tr: "all_transforms (\<lambda>f. leaves_alone f initial_state) (self ?rs)"
    using assms by (simp_all add: dict_copy_def)
  have "dicts (store ?rs) initial_state = dicts h0 initial_state"
    using assms(1) by (simp add: dict_copy_def)
  then show ?thesis
    unfolding run using run_loop_frame [OF p s tr] run_loop_state_frame [OF p s tr] by simp
qed

theorem run_leaves_caller_dict_witness:
  "(0::nat) < next_addr nested_heap \<and>
   all_transforms (\<lambda>f. leaves_alone f 0) nested_graph \<and>
   dicts (heap_after (run nested_graph 0 nested_heap)) 0 = [(''xs'', PListRef 1)] \<and>
   outcome (run nested_graph 0 nested_heap) \<noteq> Inr 0"
proof -
  have a: "(0::nat) < next_addr nested_heap"
    by (simp add: nested_heap_def)
  have "dicts nested_heap 0 = [(''xs'', PListRef 1)]"
    by (simp add: nested_heap_def)
  then show ?thesis
    using run_leaves_caller_dict [OF a all_transforms_nested_graph] a all_transforms_nested_graph
    by simp
qed

text \<open>
  Claim C5 as stated fails for a nested value: the caller's state \<^verbatim>\<open>{"xs": [1]}\<close> is
  \<^verbatim>\<open>{"xs": [1, 2]}\<close> after a run whose second node appends to the list of its working
  state.
\<close>

theorem caller_nested_value_counterexample:
  "dict_get nested_heap 0 ''xs'' = Some (PListRef 1) \<and>
   lists nested_heap 1 = [PInt 1] \<and>
   outcome (run nested_graph 0 nested_heap) = Inr 2 \<and>
   dict_get (heap_after (run nested_graph 0 nested_heap)) 0 ''xs'' = Some (PListRef 1) \<and>
   lists (heap_after (run nested_graph 0 nested_heap)) 1 = [PInt 1, PInt 2]"
  by (simp add: engine_defs example_defs nested_graph_def nested_heap_def append_item_def
        run_loop.simps)

subsection \<open>Snapshots\<close>

text \<open>
  Claim C6, amended. An iteration whose node returns normally, with its returned state an
  allocated object, turns the entry appended for it into a \<^verbatim>\<open>completed\<close> entry with a
  snapshot. The snapshot is a shallow copy: a newly allocated dictionary, another object
  than the state, with the bindings the state had when the node returned. The engine does
  not write to it afterwards: when no transform of the graph writes to it, it has the same
  bindings when the run ends. The values bound in it are shared with the state.
\<close>

theorem snapshot_is_shallow_copy:
  assumes "truthy (store rs) (current_node_name rs)" and "iteration rs < max_iterations"
    and "nodes_getitem (self rs) (current_node_name rs) = Inr node"
    and "func node (state rs) (store rs) = (Inr st1, h1)"
    and "st1 < next_addr h1"
    and "run_body rs = Inr (brk, rs')"
    and "all_transforms (\<lambda>f. leaves_alone f (next_addr h1)) (self rs)"
  shows "execution_log rs' = execution_log rs @
           [\<lparr>log_node = current_node_name rs, log_status = ''completed'',
             log_iteration = Suc (iteration rs), state_snapshot = Some (next_addr h1),
             log_error = None\<rparr>] \<and>
         state rs' = st1 \<and> next_addr h1 \<noteq> st1 \<and>
         dicts (store rs') (next_addr h1) = dicts h1 st1 \<and>
         dicts (heap_after (run_loop rs)) (next_addr h1) = dicts h1 st1"
proof -
  let ?p = "next_addr h1"
  let ?rs1 = "after_success rs node st1 h1"
  have route: "route ?rs1 = Inr (brk, rs')"
    using assms(6) run_body_after_success [OF assms(3,4)] by simp
  have ne: "?p \<noteq> state ?rs1" using assms(5) by simp
  have lg: "execution_log rs' = execution_log ?rs1" and st: "state rs' = st1"
    using route_log_iteration [OF route] route_state [OF route] by simp_all
  have d: "dicts (store rs') ?p = dicts h1 st1" and nx: "next_addr (store rs') = Suc ?p"
    using route_frame [OF ne] route by (simp_all add: dict_copy_def)
  have "forget_status (self rs') = forget_status (self rs)"
    using run_body_keeps_graph [of rs] assms(6) by simp
  then have tr: "all_transforms (\<lambda>f. leaves_alone f ?p) (self rs')"
    using assms(7) all_transforms_forget by blast
  have "dicts (heap_after (run_loop rs')) ?p = dicts (store rs') ?p"
    using nx st assms(5) tr by (intro run_loop_frame) simp_all
  then have "dicts (heap_after (run_loop rs)) ?p = dicts h1 st1"
    using run_loop_step [OF assms(1,2,6)] d by simp
  then show ?thesis
    using lg st d assms(5) by simp
qed

theorem snapshot_is_shallow_copy_witness:
  "truthy (store start_nested) (current_node_name start_nested) \<and>
   iteration start_nested < max_iterations \<and>
   nodes_getitem (self start_nested) (current_node_name start_nested)
     = Inr \<lparr>name = ''a'', func = keep, status = PENDING\<rparr> \<and>
   keep (state start_nested) (store start_nested) = (Inr 2, store start_nested) \<and>
   (2::nat) < next_addr (store start_nested) \<and> next_addr (store start_nested) = 3 \<and>
   all_transforms (\<lambda>f. leaves_alone f 3) (self start_nested) \<and>
   dicts (heap_after (run_loop start_nested)) 3 = [(''xs'', PListRef 1)]"
proof -
  let ?node = "\<lparr>name = ''a'', func = keep, status = PENDING\<rparr>"
  have t: "truthy (store start_nested) (current_node_name start_nested)"
    by (simp add: start_nested_def)
  have i: "iteration start_nested < max_iterations"
    by (simp add: start_nested_def max_iterations_def)
  have get: "nodes_getitem (self start_nested) (current_node_name start_nested) = Inr ?node"
    by (simp add: start_nested_def nested_graph_def nodes_getitem_def)
  have fn: "func ?node (state start_nested) (store start_nested) = (Inr 2, store start_nested)"
    by (simp add: keep_def start_nested_def)
  have nx: "next_addr (store start_nested) = 3"
    by (simp add: start_nested_def nested_heap_def dict_copy_def)
  have al: "(2::nat) < next_addr (store start_nested)"
    using nx by simp
  have tr: "all_transforms (\<lambda>f. leaves_alone f (next_addr (store start_nested))) (self start_nested)"
    using all_transforms_nested_graph by (simp add: start_nested_def)
  have "\<exists>brk rs'. run_body start_nested = Inr (brk, rs')"
    unfolding run_body_after_success [OF get fn]
    by (auto simp: engine_defs example_defs after_success_def start_nested_def nested_graph_def
          nested_heap_def)
  then obtain brk rs' where body: "run_body start_nested = Inr (brk, rs')"
    by blast
  have "dicts (store start_nested) 2 = [(''xs'', PListRef 1)]"
    by (simp add: start_nested_def nested_heap_def dict_copy_def)
  then show ?thesis
    using snapshot_is_shallow_copy [OF t i get fn al body tr] t i get fn al nx tr
    by simp
qed

text \<open>
  Claim C6 as stated fails for a nested value. The first entry's snapshot binds \<^verbatim>\<open>xs\<close>
  to the list object of the state. That list is \<^verbatim>\<open>[1]\<close> after the first iteration and
  \<^verbatim>\<open>[1, 2]\<close> after the second, so the first snapshot reads \<^verbatim>\<open>{"xs": [1, 2]}\<close> when
  the run returns.
\<close>

theorem snapshot_nested_value_counterexample:
  "run nested_graph 0 nested_heap = run_loop start_nested \<and>
   lists (store (snd (projr (run_body start_nested)))) 1 = [PInt 1] \<and>
   map state_snapshot (trace (run nested_graph 0 nested_heap)) = [Some 3, Some 4] \<and>
   dict_get (heap_after (run nested_graph 0 nested_heap)) 3 ''xs'' = Some (PListRef 1) \<and>
   lists (heap_after (run nested_graph 0 nested_heap)) 1 = [PInt 1, PInt 2]"
  by (simp add: engine_defs example_defs nested_graph_def nested_heap_def append_item_def
        start_nested_def run_loop.simps)

subsection \<open>Running a graph again\<close>




subsection \<open>Linear chains\<close>

text \<open>
  Claim C2, amended. The graph is a single linear chain of \<open>N\<close> nodes with non-empty names,
  none starting with \<^verbatim>\<open>if_\<close>; no transform raises or sets the loop flag, and the initial
  state carries no loop flag. Then the run returns normally, and its trace lists the first
  100 nodes of the chain in edge order from the entry node, each once, every entry
  completed, with the iteration numbers counting up from 1. For \<open>N\<close> of at most 100 these
  are all \<open>N\<close> nodes and the iteration numbers are \<open>1, \<dots>, N\<close>.
\<close>

theorem linear_chain_runs_in_order:
  assumes "linear_chain g ns" and "\<forall>n\<in>set ns. n \<noteq> [] \<and> \<not> startswith n ''if_''"
    and "all_transforms plain_step g" and "no_loop_flag h0 s0"
  shows "(\<exists>st. outcome (run g s0 h0) = Inr st) \<and>
         map log_node (trace (run g s0 h0)) = map PStr (take 100 ns) \<and>
         map log_status (trace (run g s0 h0)) = replicate (min (length ns) 100) ''completed'' \<and>
         map log_iteration (trace (run g s0 h0)) = [1..<Suc (min (length ns) 100)] \<and>
         (length ns \<le> 100 \<longrightarrow>
            length (trace (run g s0 h0)) = length (nodes g) \<and>
            map log_node (trace (run g s0 h0)) = map PStr ns \<and> distinct ns \<and>
            map log_iteration (trace (run g s0 h0)) = [1..<Suc (length ns)])"
proof -
  note r = run_linear_chain [OF assms, unfolded max_iterations_def]
  have d: "distinct ns" and "distinct (map fst (nodes g))"
    and "set (map fst (nodes g)) = set ns"
    using assms(1) by (simp_all add: linear_chain_def)
  then have "length (map fst (nodes g)) = length ns"
    by (metis distinct_card)
  then have "length (nodes g) = length ns" and "distinct ns"
    using d by simp_all
  moreover have "length (map log_status (trace (run g s0 h0))) = min (length ns) 100"
    using r by simp
  then have "length (trace (run g s0 h0)) = min (length ns) 100"
    by simp
  ultimately show ?thesis
    using r by (simp add: min_def del: upt_Suc)
qed

theorem linear_chain_runs_in_order_witness:
  "linear_chain scenario_A [''a'', ''b'', ''c''] \<and>
   \<not> startswith ''a'' ''if_'' \<and> \<not> startswith ''b'' ''if_'' \<and> \<not> startswith ''c'' ''if_'' \<and>
   all_transforms plain_step scenario_A \<and>
   no_loop_flag (snd (new_dict [(''x'', PInt 1)] empty_heap)) 0 \<and>
   map log_node (trace (run scenario_A 0 (snd (new_dict [(''x'', PInt 1)] empty_heap))))
     = [PStr ''a'', PStr ''b'', PStr ''c''] \<and>
   map log_status (trace (run scenario_A 0 (snd (new_dict [(''x'', PInt 1)] empty_heap))))
     = [''completed'', ''completed'', ''completed''] \<and>
   map log_iteration (trace (run scenario_A 0 (snd (new_dict [(''x'', PInt 1)] empty_heap))))
     = [1, 2, 3]"
proof -
  let ?h = "snd (new_dict [(''x'', PInt 1)] empty_heap)"
  have c: "linear_chain scenario_A [''a'', ''b'', ''c'']"
    by (simp add: linear_chain_def scenario_A_def)
  have nm: "\<forall>n\<in>set [''a'', ''b'', ''c'']. n \<noteq> [] \<and> \<not> startswith n ''if_''"
    by (simp add: startswith_def)
  have tr: "all_transforms plain_step scenario_A"
    by (auto simp: all_transforms_def scenario_A_def plain_step_keep split: if_splits)
  have nf: "no_loop_flag ?h 0"
    by (simp add: no_loop_flag_def dict_get_def new_dict_def empty_heap_def)
  have "[1..<Suc (min (length [''a'', ''b'', ''c'']) 100)] = [1, 2, 3]"
    by (simp add: upt_rec)
  then show ?thesis
    using linear_chain_runs_in_order [OF c nm tr nf] c nm tr nf
    by (simp add: numeral_3_eq_3 startswith_def del: upt_Suc)
qed

text \<open>
  Claim C2 as stated fails in three ways: a chain of 101 nodes gives a trace of 100
  entries, since the run stops at the ceiling; a chain whose second node has the empty
  name gives one entry, since the loop ends at a name that is false; and a chain of two
  nodes run from a state that holds a true \<^verbatim>\<open>loop_continue\<close>, which no transform set,
  executes the first node twice.
\<close>

theorem linear_chain_counterexample:
  "linear_chain (chain_graph 101) (chain_names 101) \<and> length (nodes (chain_graph 101)) = 101 \<and>
   length (trace (run (chain_graph 101) 0 (snd (new_dict [] empty_heap)))) = 100 \<and>
   linear_chain unnamed_chain [''a'', []] \<and>
   map log_node (trace (run unnamed_chain 0 (snd (new_dict [] empty_heap)))) = [PStr ''a''] \<and>
   linear_chain short_chain [''a'', ''b''] \<and>
   map log_node (trace (run short_chain 0 flagged_heap)) = [PStr ''a'', PStr ''a'', PStr ''b'']"
proof -
  let ?h = "snd (new_dict [] empty_heap)"
  have c: "linear_chain (chain_graph 101) (chain_names 101)"
    by (rule linear_chain_chain_graph) simp
  have "no_loop_flag ?h 0"
    by (simp add: no_loop_flag_def dict_get_def new_dict_def empty_heap_def)
  from run_linear_chain [OF c chain_names_props(3) all_transforms_chain_graph this]
  have "map log_status (trace (run (chain_graph 101) 0 ?h))
          = replicate (min (length (chain_names 101)) max_iterations) ''completed''"
    by simp
  then have "length (map log_status (trace (run (chain_graph 101) 0 ?h)))
          = min (length (chain_names 101)) max_iterations"
    by simp
  then have long: "length (trace (run (chain_graph 101) 0 ?h)) = 100"
    by (simp add: chain_names_props(1) max_iterations_def)
  have n: "length (nodes (chain_graph 101)) = 101"
    by (simp add: chain_graph_def chain_names_props(1))
  have u: "linear_chain unnamed_chain [''a'', []]"
    and s: "linear_chain short_chain [''a'', ''b'']"
    by (simp_all add: linear_chain_def unnamed_chain_def short_chain_def)
  have ut: "map log_node (trace (run unnamed_chain 0 ?h)) = [PStr ''a'']"
    by (simp add: engine_defs example_defs unnamed_chain_def run_loop.simps)
  have st: "map log_node (trace (run short_chain 0 flagged_heap)) = [PStr ''a'', PStr ''a'', PStr ''b'']"
    by (simp add: engine_defs example_defs short_chain_def flagged_heap_def run_loop.simps)
  from c n long u ut s st show ?thesis
    by blast
qed

end
